theory Spec2Isabelle
  imports Complex_Main
begin

section \<open>Data model\<close>

text \<open>
  Customers, days and column positions are array indices in the C source (asserted
  non-negative where records are created and where tours are read), so they are natural
  numbers here. Sentinel-carrying integers (\<open>-1\<close> for "none") and counters stay \<open>int\<close>.
  Column bounds and LP values are \<open>SCIP_Real\<close>; they are only compared against
  constants that are exact in binary (\<open>0.5\<close>), and are modelled as \<open>real\<close>.
\<close>

text \<open>The ways a call can fail: a failed \<open>assert\<close>, the SCIP return code
  \<open>SCIP_INVALIDDATA\<close>, and two kinds of undefined behaviour of C that the model
  turns into values: an access past the end of an allocated array and a dereference of
  \<open>NULL\<close>.\<close>

datatype error = AssertionFailed | SCIP_INVALIDDATA | OutOfBounds | NullPointer

text \<open>\<open>enum ConsTypeVA\<close> of cons_vehicleass.h; \<open>VA_OTHER\<close> stands for any
  integer value outside the enumeration (the C type admits them).\<close>

datatype CONSTYPEVA = VA_PROHIBIT | VA_ENFORCE | VA_OTHER

text \<open>The arc-flow constraint type used by pricer_vrp.c (\<open>PROHIBIT\<close>, \<open>ENFORCE\<close>).\<close>

datatype CONSTYPE = PROHIBIT | ENFORCE | ARC_OTHER

datatype SCIP_RESULT = SCIP_DIDNOTRUN | SCIP_DIDNOTFIND | SCIP_CUTOFF | SCIP_REDUCEDDOM
  | SCIP_SUCCESS | SCIP_BRANCHED

text \<open>A column: the tour of its \<open>SCIP_VARDATA\<close> (\<open>customertour[0..tourlength)\<close>), the
  day of the tour, and the local bounds of the variable.\<close>

record SCIP_VAR =
  customertour :: "nat list"
  tourday :: nat
  lbLocal :: real
  ubLocal :: real

text \<open>\<open>struct SCIP_ConsData\<close> of cons_vehicleass.c (the node pointer is opaque and
  left out).\<close>

record SCIP_CONSDATA =
  customer :: nat
  day :: nat
  ctype :: CONSTYPEVA
  npropagatedvars :: nat
  npropagations :: int
  propagated :: bool

text \<open>SCIP's return code \<open>SCIP_OKAY\<close> is \<open>+1\<close>; converted to \<open>SCIP_Bool\<close> it is
  \<open>TRUE\<close>.\<close>

definition SCIP_OKAY :: int where
  "SCIP_OKAY = 1"

text \<open>A fallible call succeeded.\<close>

definition isOK :: "'e + 'a \<Rightarrow> bool" where
  "isOK x = (case x of Inl _ \<Rightarrow> False | Inr _ \<Rightarrow> True)"

section \<open>cons\_vehicleass.c\<close>

fun tourScan :: "nat list \<Rightarrow> nat \<Rightarrow> nat \<Rightarrow> nat \<Rightarrow> int" where
  "tourScan [] vday cust d = (if vday = d then 1 else 0)"
| "tourScan (u # us) vday cust d =
     (if u = cust then (if vday = d then 2 else 1) else tourScan us vday cust d)"

definition customerAndDayInVar :: "SCIP_VAR \<Rightarrow> nat \<Rightarrow> nat \<Rightarrow> int" where
  "customerAndDayInVar var cust d = tourScan (customertour var) (tourday var) cust d"

text \<open>
  \<open>SCIPfixVar(scip, var, 0.0, &infeasible, &fixed)\<close> is SCIP library code. For the
  binary column variables of this model it reports \<open>infeasible\<close> when the local lower
  bound excludes zero (the handler asserts \<open>SCIPvarGetLbLocal(var) > 0.5\<close> in that
  case) and otherwise lowers the upper bound to zero and reports \<open>fixed\<close>.
  The result is (variable, infeasible, fixed).
\<close>

definition SCIPfixVar :: "SCIP_VAR \<Rightarrow> SCIP_VAR \<times> bool \<times> bool" where
  "SCIPfixVar var =
     (if lbLocal var > 0.5 then (var, True, False)
      else (var\<lparr>ubLocal := 0\<rparr>, False, True))"

text \<open>\<open>checkVariable\<close>: the variable, \<open>*nfixedvars\<close> and \<open>*cutoff\<close> are passed in
  and returned updated.\<close>

definition checkVariable ::
  "SCIP_CONSDATA \<Rightarrow> SCIP_VAR \<Rightarrow> int \<Rightarrow> bool \<Rightarrow> SCIP_VAR \<times> int \<times> bool" where
  "checkVariable consdata var nfixedvars cutoff =
     (if ubLocal var < 0.5 then (var, nfixedvars, cutoff)
      else
        (let arcStatus = customerAndDayInVar var (customer consdata) (day consdata) in
         if arcStatus = 0 then (var, nfixedvars, cutoff)
         else if (ctype consdata = VA_PROHIBIT \<and> arcStatus = 2)
               \<or> (ctype consdata = VA_ENFORCE \<and> arcStatus = 1)
         then (case SCIPfixVar var of
                 (var', infeasible, fixed) \<Rightarrow>
                   if infeasible then (var', nfixedvars, True)
                   else (var', nfixedvars + 1, cutoff))
         else (var, nfixedvars, cutoff)))"

text \<open>The loop of \<open>consdataFixVariables\<close>:
  \<open>for( v = npropagatedvars; v < nvars && !cutoff; ++v )\<close>.\<close>

function consdataFixVariables_loop ::
  "SCIP_CONSDATA \<Rightarrow> SCIP_VAR list \<Rightarrow> nat \<Rightarrow> nat \<Rightarrow> int \<Rightarrow> bool
     \<Rightarrow> SCIP_VAR list \<times> int \<times> bool" where
  "consdataFixVariables_loop consdata vars nvars v nfixedvars cutoff =
     (if v < nvars \<and> \<not> cutoff then
        (case checkVariable consdata (vars ! v) nfixedvars cutoff of
           (var', nfixedvars', cutoff') \<Rightarrow>
             consdataFixVariables_loop consdata (vars[v := var']) nvars (Suc v)
               nfixedvars' cutoff')
      else (vars, nfixedvars, cutoff))"
  by pat_completeness auto
termination
  by (relation "measure (\<lambda>(consdata, vars, nvars, v, nfixedvars, cutoff). nvars - v)") auto

declare consdataFixVariables_loop.simps [simp del]

definition consdataFixVariables ::
  "SCIP_CONSDATA \<Rightarrow> SCIP_VAR list \<Rightarrow> nat \<Rightarrow> SCIP_RESULT \<Rightarrow> SCIP_VAR list \<times> SCIP_RESULT" where
  "consdataFixVariables consdata vars nvars result =
     (case consdataFixVariables_loop consdata vars nvars (npropagatedvars consdata) 0 False of
        (vars', nfixedvars, cutoff) \<Rightarrow>
          (vars', if cutoff then SCIP_CUTOFF
                  else if nfixedvars > 0 then SCIP_REDUCEDDOM
                  else result))"

text \<open>The loop of \<open>consdataCheck\<close>, with its three exits: \<open>return SCIP_OKAY\<close> on a
  feasible column of status 0, \<open>return FALSE\<close> on a violating column, \<open>return TRUE\<close>
  after the last column.\<close>

function consdataCheck_loop :: "SCIP_VAR list \<Rightarrow> SCIP_CONSDATA \<Rightarrow> nat \<Rightarrow> nat \<Rightarrow> bool" where
  "consdataCheck_loop vars consdata nvars v =
     (if v < nvars then
        (if ubLocal (vars ! v) < 0.5 then consdataCheck_loop vars consdata nvars (Suc v)
         else if customerAndDayInVar (vars ! v) (customer consdata) (day consdata) = 0
           then SCIP_OKAY \<noteq> 0
         else if (ctype consdata = VA_PROHIBIT
                    \<and> customerAndDayInVar (vars ! v) (customer consdata) (day consdata) = 2)
               \<or> (ctype consdata = VA_ENFORCE
                    \<and> customerAndDayInVar (vars ! v) (customer consdata) (day consdata) = 1)
           then False
         else consdataCheck_loop vars consdata nvars (Suc v))
      else True)"
  by pat_completeness auto
termination
  by (relation "measure (\<lambda>(vars, consdata, nvars, v). nvars - v)") auto

declare consdataCheck_loop.simps [simp del]

text \<open>\<open>consdataCheck\<close>; \<open>probdata->vars\<close> is the column list and \<open>probdata->nvars\<close> its
  length. The inner \<open>assert(nvars <= probdata->nvars)\<close> is the error branch.\<close>

definition consdataCheck :: "SCIP_VAR list \<Rightarrow> SCIP_CONSDATA \<Rightarrow> bool \<Rightarrow> error + bool" where
  "consdataCheck vars consdata beforeprop =
     (let nvars = (if beforeprop then npropagatedvars consdata else length vars) in
      if \<not> nvars \<le> length vars then Inl AssertionFailed
      else Inr (consdataCheck_loop vars consdata nvars 0))"

text \<open>The debug block of \<open>consPropVehicleAss\<close> that compares record \<open>c\<close> with every
  later record.\<close>

definition noEqualConsdatas :: "SCIP_CONSDATA list \<Rightarrow> nat \<Rightarrow> bool" where
  "noEqualConsdatas conss c =
     list_all (\<lambda>i.
        \<not> (customer (conss ! c) = customer (conss ! i)
             \<and> ctype (conss ! c) = VA_ENFORCE \<and> ctype (conss ! i) = VA_ENFORCE)
        \<and> \<not> (customer (conss ! c) = customer (conss ! i) \<and> day (conss ! c) = day (conss ! i)))
       [Suc c ..< length conss]"

text \<open>
  The loop of \<open>consPropVehicleAss\<close> over the records \<open>conss[c..nconss)\<close> handed to the
  callback (the active records of the handler). The state is the column list, the
  records and \<open>*result\<close>. Every \<open>assert\<close> is an error branch; the \<open>break\<close> after a
  cutoff ends the loop.
\<close>

function consPropVehicleAss_loop ::
  "SCIP_VAR list \<Rightarrow> SCIP_CONSDATA list \<Rightarrow> nat \<Rightarrow> SCIP_RESULT
     \<Rightarrow> error + (SCIP_VAR list \<times> SCIP_CONSDATA list \<times> SCIP_RESULT)" where
  "consPropVehicleAss_loop vars conss c result =
     (if c < length conss then
        (if consdataCheck vars (conss ! c) True \<noteq> Inr True then Inl AssertionFailed
         else if \<not> noEqualConsdatas conss c then Inl AssertionFailed
         else if \<not> propagated (conss ! c) then
           (case consdataFixVariables (conss ! c) vars (length vars) result of
              (vars', result') \<Rightarrow>
                if result' \<noteq> SCIP_CUTOFF then
                  (if consdataCheck vars'
                        ((conss ! c)\<lparr>npropagations := npropagations (conss ! c) + 1,
                                     propagated := True,
                                     npropagatedvars := length vars\<rparr>) False \<noteq> Inr True
                   then Inl AssertionFailed
                   else consPropVehicleAss_loop vars'
                          (conss[c := (conss ! c)\<lparr>npropagations := npropagations (conss ! c) + 1,
                                                 propagated := True,
                                                 npropagatedvars := length vars\<rparr>])
                          (Suc c) result')
                else Inr (vars',
                          conss[c := (conss ! c)\<lparr>npropagations := npropagations (conss ! c) + 1\<rparr>],
                          result'))
         else if consdataCheck vars (conss ! c) False \<noteq> Inr True then Inl AssertionFailed
         else consPropVehicleAss_loop vars conss (Suc c) result)
      else Inr (vars, conss, result))"
  by pat_completeness auto
termination
  by (relation "measure (\<lambda>(vars, conss, c, result). length conss - c)") auto

declare consPropVehicleAss_loop.simps [simp del]

definition consPropVehicleAss ::
  "SCIP_VAR list \<Rightarrow> SCIP_CONSDATA list
     \<Rightarrow> error + (SCIP_VAR list \<times> SCIP_CONSDATA list \<times> SCIP_RESULT)" where
  "consPropVehicleAss vars conss = consPropVehicleAss_loop vars conss 0 SCIP_DIDNOTFIND"

subsection \<open>Vocabulary for the propagation properties\<close>

text \<open>A column violates a record when the record's verdict asks for it to be fixed:
  status 2 under PROHIBIT, status 1 under ENFORCE (the test of \<open>checkVariable\<close> and
  \<open>consdataCheck\<close>).\<close>

definition violatesRecord :: "SCIP_CONSDATA \<Rightarrow> SCIP_VAR \<Rightarrow> bool" where
  "violatesRecord consdata var =
     ((ctype consdata = VA_PROHIBIT
         \<and> customerAndDayInVar var (customer consdata) (day consdata) = 2)
      \<or> (ctype consdata = VA_ENFORCE
         \<and> customerAndDayInVar var (customer consdata) (day consdata) = 1))"

text \<open>A feasible violating column can be fixed to zero unless its lower bound forces it
  to one; in that case fixing it is a contradiction.\<close>

definition fixable :: "SCIP_CONSDATA \<Rightarrow> SCIP_VAR \<Rightarrow> bool" where
  "fixable consdata var =
     (ubLocal var \<ge> 0.5 \<and> violatesRecord consdata var \<and> \<not> lbLocal var > 0.5)"

definition contradicts :: "SCIP_CONSDATA \<Rightarrow> SCIP_VAR \<Rightarrow> bool" where
  "contradicts consdata var =
     (ubLocal var \<ge> 0.5 \<and> violatesRecord consdata var \<and> lbLocal var > 0.5)"

text \<open>Column \<open>v\<close> is reached by a scan that starts at \<open>v0\<close>: no earlier column of the
  scan raised the cutoff flag.\<close>

definition scanned :: "SCIP_CONSDATA \<Rightarrow> SCIP_VAR list \<Rightarrow> nat \<Rightarrow> nat \<Rightarrow> bool" where
  "scanned consdata vars v0 v =
     (v0 \<le> v \<and> list_all (\<lambda>u. \<not> contradicts consdata (vars ! u)) [v0 ..< v])"

text \<open>The propagation of record \<open>r\<close> over the columns \<open>vars\<close> reports CUTOFF: a column
  of its range, from \<open>npropagatedvars\<close> to the end, is feasible, violates the verdict and
  is forced to one by its lower bound.\<close>

definition cutsOff :: "SCIP_CONSDATA \<Rightarrow> SCIP_VAR list \<Rightarrow> bool" where
  "cutsOff r vars =
     list_ex (\<lambda>w. contradicts r (vars ! w)) [npropagatedvars r ..< length vars]"

text \<open>The propagation of record \<open>r\<close> fixes column \<open>w\<close>: its scan reaches the column, and
  the column is feasible, violates the verdict and is not forced to one.\<close>

definition fixesColumn :: "SCIP_CONSDATA \<Rightarrow> SCIP_VAR list \<Rightarrow> nat \<Rightarrow> bool" where
  "fixesColumn r vars w =
     (w < length vars \<and> scanned r vars (npropagatedvars r) w \<and> fixable r (vars ! w))"

text \<open>Record \<open>k\<close> is processed by the loop of the callback started at record \<open>c\<close>: it is
  not yet propagated, and no not-yet-propagated record from \<open>c\<close> up to \<open>k\<close> reports
  CUTOFF (the loop breaks at the first that does).\<close>

definition processed :: "SCIP_CONSDATA list \<Rightarrow> SCIP_VAR list \<Rightarrow> nat \<Rightarrow> nat \<Rightarrow> bool" where
  "processed conss vars c k =
     (c \<le> k \<and> k < length conss \<and> \<not> propagated (conss ! k)
      \<and> list_all (\<lambda>k'. propagated (conss ! k') \<or> \<not> cutsOff (conss ! k') vars) [c ..< k])"

text \<open>The classifier as the specification words it: 1 if the column visits the customer,
  2 if it visits the customer and runs on that day, 0 otherwise.\<close>

definition hit_as_specified :: "SCIP_VAR \<Rightarrow> nat \<Rightarrow> nat \<Rightarrow> int" where
  "hit_as_specified var cust d =
     (if cust \<in> set (customertour var) then (if tourday var = d then 2 else 1) else 0)"


section \<open>pricer\_vrp.c: the node graph builder\<close>

text \<open>
  \<open>model_data\<close>: the number of customers \<open>nC\<close> (the depot is customer \<open>nC - 1\<close>), the
  number of days, the days of each customer's \<open>modelWindow\<close> list and the base neighbor
  lists \<open>modelData->neighbors[i][j]\<close> (field \<open>modelNeighbors\<close>; the linked lists are
  lists of neighbor ids in list order).
\<close>

record model_data =
  nC :: nat
  nDays :: nat
  timeWindows :: "nat list list"
  modelNeighbors :: "nat list list list"

text \<open>\<open>SCIP_PRICERDATA\<close>: the restricted graph of the current node and the identifier
  of the node it was built for.\<close>

record SCIP_PRICERDATA =
  isForbidden :: "bool list list"
  toDepot :: "bool list"
  timetable :: "bool list list"
  eC :: "int list"
  nEC :: "int list"
  neighbors :: "nat list list list"
  lastnodeid :: int

text \<open>A constraint of the arc-flow handler, as the pricer reads it through
  \<open>SCIPconsIsActive\<close>, \<open>SCIPgetTailArcflow\<close>, \<open>SCIPgetHeadArcflow\<close> and
  \<open>SCIPgetTypeArcflow\<close>.\<close>

record ARCFLOW_CONS =
  arcActive :: bool
  tail :: nat
  head :: nat
  arctype :: CONSTYPE

text \<open>A constraint of the vehicle-assignment handler: its activity flag and its
  constraint data.\<close>

record VEHICLEASS_CONS =
  vaActive :: bool
  vaData :: SCIP_CONSDATA

text \<open>The assignment \<open>a[i][j] = v\<close> on an array of rows.\<close>

definition array2_set :: "'a list list \<Rightarrow> nat \<Rightarrow> nat \<Rightarrow> 'a \<Rightarrow> 'a list list" where
  "array2_set a i j v = a[i := (a ! i)[j := v]]"

text \<open>\<open>i == modelData->nC - 1\<close> in C's integer arithmetic (false for every index when
  \<open>nC = 0\<close>).\<close>

definition isDepot :: "nat \<Rightarrow> nat \<Rightarrow> bool" where
  "isDepot n i = (Suc i = n)"

subsection \<open>SCIPincludePricerVrp and SCIPpricerVrpActivate\<close>

text \<open>A loop whose body may fail (an \<open>assert\<close>, an error code passed up by
  \<open>SCIP_CALL\<close>, or undefined behaviour): the first failure ends it.\<close>

fun foldE :: "('a \<Rightarrow> 's \<Rightarrow> error + 's) \<Rightarrow> 'a list \<Rightarrow> 's \<Rightarrow> error + 's" where
  "foldE f [] st = Inr st"
| "foldE f (x # xs) st = (case f x st of Inl e \<Rightarrow> Inl e | Inr st' \<Rightarrow> foldE f xs st')"

text \<open>
  The pricer data as created by \<open>SCIPincludePricerVrp\<close> (\<open>lastnodeid = 1\<close>) and
  filled by \<open>SCIPpricerVrpActivate\<close>: the neighbor arrays are duplicates of the model's,
  no arc is forbidden, every customer may return to the depot, the timetable holds the
  base time windows, and a customer with a single window is enforced on its day.

  The array \<open>nEC\<close> is allocated with \<open>nC\<close> cells but indexed by day: the loop
  \<open>for(i = 0; i < pricerdata->nDays; i++) pricerdata->nEC[i] = 0\<close> leaves the array when
  \<open>nDays > nC\<close>, and so does \<open>nEC[window->day]++\<close> for a day \<open>\<ge> nC\<close>. The test
  \<open>window->next == NULL\<close> dereferences \<open>NULL\<close> when the window list is empty. Cells
  of \<open>nEC\<close> and \<open>eC\<close> that the C code has not yet written are 0 here. Where an example
  below starts from an activated pricer, \<open>projr (SCIPpricerVrpActivate md)\<close> is the
  pricer data of the activation, which completes on the model of the example.
\<close>

text \<open>One customer of the last loop of \<open>SCIPpricerVrpActivate\<close>; the state is
  (\<open>eC\<close>, \<open>nEC\<close>, \<open>timetable\<close>), the row \<open>timetable[i]\<close> is allocated here with
  \<open>nDays\<close> cells.\<close>

definition activate_customer ::
  "model_data \<Rightarrow> nat \<Rightarrow> int list \<times> int list \<times> bool list list
     \<Rightarrow> error + (int list \<times> int list \<times> bool list list)" where
  "activate_customer md i st =
     (case st of (ec, nec, tt) \<Rightarrow>
        (case timeWindows md ! i of
           [] \<Rightarrow> Inl NullPointer
         | w # ws \<Rightarrow>
             if ws = [] \<and> \<not> w < length nec then Inl OutOfBounds
             else if \<not> list_all (\<lambda>d. d < nDays md) (w # ws) then Inl OutOfBounds
             else Inr (if ws = [] then ec[i := int w] else ec[i := - 1],
                       if ws = [] then nec[w := nec ! w + 1] else nec,
                       tt[i := fold (\<lambda>d row. row[d := True]) (w # ws)
                                (replicate (nDays md) False)])))"

definition SCIPpricerVrpActivate :: "model_data \<Rightarrow> error + SCIP_PRICERDATA" where
  "SCIPpricerVrpActivate md =
     (if nC md < nDays md then Inl OutOfBounds
      else
        (case foldE (activate_customer md) [0 ..< nC md]
                (replicate (nC md) 0, replicate (nC md) 0, replicate (nC md) []) of
           Inl e \<Rightarrow> Inl e
         | Inr (ec, nec, tt) \<Rightarrow>
             Inr \<lparr>isForbidden = replicate (nC md) (replicate (nC md) False),
                  toDepot = replicate (nC md - 1) True,
                  timetable = tt,
                  eC = ec,
                  nEC = nec,
                  neighbors = map (take (nDays md)) (take (nC md) (modelNeighbors md)),
                  lastnodeid = 1\<rparr>))"

subsection \<open>setArcMatrix\<close>

text \<open>The state of \<open>setArcMatrix\<close>: the pricer data and the local arrays \<open>successor\<close>
  and \<open>predecessor\<close>. The first loops reset the arrays.\<close>

definition setArcMatrix_init ::
  "nat \<Rightarrow> SCIP_PRICERDATA \<Rightarrow> SCIP_PRICERDATA \<times> int list \<times> int list" where
  "setArcMatrix_init n pd =
     (pd\<lparr>isForbidden :=
            fold (\<lambda>i a. fold (\<lambda>j a. array2_set a i j False) [0 ..< n] a) [0 ..< n]
              (isForbidden pd),
          toDepot := fold (\<lambda>i t. t[i := True]) [0 ..< n - 1] (toDepot pd)\<rparr>,
      replicate n (- 1), replicate n (- 1))"

text \<open>The three loops that induce forbidden arcs from an enforced arc.\<close>

definition forbidAround :: "nat \<Rightarrow> nat \<Rightarrow> nat \<Rightarrow> bool list list \<Rightarrow> bool list list" where
  "forbidAround n t h a =
     fold (\<lambda>j a. let a1 = (if j \<noteq> h then array2_set a t j True else a)
                  in (if j \<noteq> t then array2_set a1 j h True else a1))
       [0 ..< n] a"

definition forbidRow :: "nat \<Rightarrow> nat \<Rightarrow> bool list list \<Rightarrow> bool list list" where
  "forbidRow n t a = fold (\<lambda>j a. array2_set a t j True) [0 ..< n - 1] a"

definition forbidColumn :: "nat \<Rightarrow> nat \<Rightarrow> bool list list \<Rightarrow> bool list list" where
  "forbidColumn n h a = fold (\<lambda>j a. array2_set a j h True) [0 ..< n - 1] a"

text \<open>The body of the loop over the arc-flow constraints.\<close>

definition setArcMatrix_step ::
  "nat \<Rightarrow> ARCFLOW_CONS \<Rightarrow> SCIP_PRICERDATA \<times> int list \<times> int list
     \<Rightarrow> error + (SCIP_PRICERDATA \<times> int list \<times> int list)" where
  "setArcMatrix_step n cons st =
     (case st of (pd, successor, predecessor) \<Rightarrow>
        if \<not> arcActive cons then Inr (pd, successor, predecessor)
        else if arctype cons = PROHIBIT then
          (if isForbidden pd ! tail cons ! head cons then Inl AssertionFailed
           else Inr (pd\<lparr>isForbidden := array2_set (isForbidden pd) (tail cons) (head cons) True,
                         toDepot := (if isDepot n (head cons)
                                     then (toDepot pd)[tail cons := False]
                                     else toDepot pd)\<rparr>,
                     successor, predecessor))
        else if arctype cons = ENFORCE then
          (if \<not> (isDepot n (tail cons) \<or> successor ! tail cons = - 1) then Inl AssertionFailed
           else if \<not> (isDepot n (head cons) \<or> predecessor ! head cons = - 1)
             then Inl AssertionFailed
           else if \<not> isDepot n (head cons) \<and> \<not> isDepot n (tail cons) then
             Inr (pd\<lparr>toDepot := (toDepot pd)[tail cons := False],
                      isForbidden := forbidAround n (tail cons) (head cons) (isForbidden pd)\<rparr>,
                  successor[tail cons := int (head cons)],
                  predecessor[head cons := int (tail cons)])
           else if isDepot n (head cons) then
             Inr (pd\<lparr>isForbidden := forbidRow n (tail cons) (isForbidden pd)\<rparr>,
                  successor[tail cons := int (head cons)],
                  predecessor[head cons := int (tail cons)])
           else if \<not> isDepot n (tail cons) then Inl AssertionFailed
           else
             Inr (pd\<lparr>isForbidden := forbidColumn n (head cons) (isForbidden pd)\<rparr>,
                  successor[tail cons := int (head cons)],
                  predecessor[head cons := int (tail cons)]))
        else Inl SCIP_INVALIDDATA)"

fun setArcMatrix_conss ::
  "nat \<Rightarrow> ARCFLOW_CONS list \<Rightarrow> SCIP_PRICERDATA \<times> int list \<times> int list
     \<Rightarrow> error + (SCIP_PRICERDATA \<times> int list \<times> int list)" where
  "setArcMatrix_conss n [] st = Inr st"
| "setArcMatrix_conss n (cons # conss) st =
     (case setArcMatrix_step n cons st of
        Inl e \<Rightarrow> Inl e
      | Inr st' \<Rightarrow> setArcMatrix_conss n conss st')"

text \<open>\<open>setArcMatrix\<close>. The local arrays are freed before the C function returns; the
  model returns them next to the pricer data so that properties can mention them.\<close>

definition setArcMatrix ::
  "model_data \<Rightarrow> ARCFLOW_CONS list \<Rightarrow> SCIP_PRICERDATA
     \<Rightarrow> error + (SCIP_PRICERDATA \<times> int list \<times> int list)" where
  "setArcMatrix md conss pd = setArcMatrix_conss (nC md) conss (setArcMatrix_init (nC md) pd)"

subsection \<open>setTimeTable\<close>

text \<open>The reset loop: every day of the row is cleared, then every day of the customer's
  window list is set.\<close>

definition setTimeTable_reset :: "model_data \<Rightarrow> bool list list \<Rightarrow> bool list list" where
  "setTimeTable_reset md tt =
     fold (\<lambda>cust tt.
             fold (\<lambda>w tt. array2_set tt cust w True) (timeWindows md ! cust)
               (fold (\<lambda>d tt. array2_set tt cust d False) [0 ..< nDays md] tt))
       [0 ..< nC md] tt"

text \<open>The body of the loop over the vehicle-assignment constraints. The first assertion
  is \<open>customer >= 0 && customer < modelData->nC - 1\<close>.\<close>

definition setTimeTable_step ::
  "model_data \<Rightarrow> VEHICLEASS_CONS \<Rightarrow> bool list list \<Rightarrow> error + bool list list" where
  "setTimeTable_step md cons tt =
     (if \<not> vaActive cons then Inr tt
      else if \<not> Suc (customer (vaData cons)) < nC md then Inl AssertionFailed
      else if ctype (vaData cons) = VA_PROHIBIT then
        (if \<not> tt ! customer (vaData cons) ! day (vaData cons) then Inl AssertionFailed
         else Inr (array2_set tt (customer (vaData cons)) (day (vaData cons)) False))
      else if ctype (vaData cons) = VA_ENFORCE then
        (if \<not> tt ! customer (vaData cons) ! day (vaData cons) then Inl AssertionFailed
         else Inr (array2_set
                     (fold (\<lambda>w tt. array2_set tt (customer (vaData cons)) w False)
                        (timeWindows md ! customer (vaData cons)) tt)
                     (customer (vaData cons)) (day (vaData cons)) True))
      else Inl SCIP_INVALIDDATA)"

definition setTimeTable ::
  "model_data \<Rightarrow> VEHICLEASS_CONS list \<Rightarrow> SCIP_PRICERDATA \<Rightarrow> error + SCIP_PRICERDATA" where
  "setTimeTable md conss pd =
     (case foldE (setTimeTable_step md) conss (setTimeTable_reset md (timetable pd)) of
        Inl e \<Rightarrow> Inl e
      | Inr tt \<Rightarrow> Inr (pd\<lparr>timetable := tt\<rparr>))"

subsection \<open>setEnforcedCustomers\<close>

text \<open>The \<open>while\<close> loop over a customer's window list, with \<open>countAvailable\<close> and
  \<open>dayAvailable\<close>.\<close>

fun countAvailable_loop :: "bool list \<Rightarrow> nat list \<Rightarrow> int \<Rightarrow> int \<Rightarrow> int \<times> int" where
  "countAvailable_loop row [] countAvailable dayAvailable = (countAvailable, dayAvailable)"
| "countAvailable_loop row (w # ws) countAvailable dayAvailable =
     (if row ! w then countAvailable_loop row ws (countAvailable + 1) (int w)
      else countAvailable_loop row ws countAvailable dayAvailable)"

text \<open>The reset loop \<open>for(day = 0; day < nDays; day++) nEC[day] = 0\<close> on the array of
  \<open>nC\<close> cells: a day past the end of the array is an access out of bounds.\<close>

definition nEC_reset :: "nat \<Rightarrow> int list \<Rightarrow> error + int list" where
  "nEC_reset d nec = (if d < length nec then Inr (nec[d := 0]) else Inl OutOfBounds)"

text \<open>The body of the loop over the customers; \<open>nEC[dayAvailable]++\<close> is an access out
  of bounds when the day is past the end of the array.\<close>

definition setEnforcedCustomers_step ::
  "model_data \<Rightarrow> bool list list \<Rightarrow> nat \<Rightarrow> int list \<times> int list
     \<Rightarrow> error + (int list \<times> int list)" where
  "setEnforcedCustomers_step md tt cust st =
     (case st of (ec, nec) \<Rightarrow>
        (case countAvailable_loop (tt ! cust) (timeWindows md ! cust) 0 (- 1) of
           (countAvailable, dayAvailable) \<Rightarrow>
             if countAvailable = 1
             then (if nat dayAvailable < length nec
                   then Inr (ec[cust := dayAvailable],
                             nec[nat dayAvailable := nec ! nat dayAvailable + 1])
                   else Inl OutOfBounds)
             else Inr (ec[cust := - 1], nec)))"

definition setEnforcedCustomers ::
  "model_data \<Rightarrow> SCIP_PRICERDATA \<Rightarrow> error + SCIP_PRICERDATA" where
  "setEnforcedCustomers md pd =
     (case foldE nEC_reset [0 ..< nDays md] (nEC pd) of
        Inl e \<Rightarrow> Inl e
      | Inr nec0 \<Rightarrow>
          (case foldE (setEnforcedCustomers_step md (timetable pd)) [0 ..< nC md - 1]
                  (eC pd, nec0) of
             Inl e \<Rightarrow> Inl e
           | Inr (ec, nec) \<Rightarrow> Inr (pd\<lparr>eC := ec, nEC := nec\<rparr>)))"

subsection \<open>clearNeighbors and setCurrentNeighborhood\<close>

text \<open>\<open>clearNeighbors\<close>: when \<open>lastnodeid\<close> is not 1 every list is popped and freed until
  it is \<open>NULL\<close> (bounds \<open>pricerdata->nC\<close>, \<open>pricerdata->nDays\<close>, the model's after
  activation); otherwise every list pointer is set to \<open>NULL\<close>. Either way every list is
  empty afterwards.\<close>

definition clearNeighbors :: "model_data \<Rightarrow> SCIP_PRICERDATA \<Rightarrow> SCIP_PRICERDATA" where
  "clearNeighbors md pd =
     (if lastnodeid pd \<noteq> 1 then
        pd\<lparr>neighbors :=
             fold (\<lambda>i a. fold (\<lambda>j a. array2_set a i j []) [0 ..< nDays md] a) [0 ..< nC md]
               (neighbors pd)\<rparr>
      else
        pd\<lparr>neighbors :=
             fold (\<lambda>i a. fold (\<lambda>j a. array2_set a i j []) [0 ..< nDays md] a) [0 ..< nC md]
               (neighbors pd)\<rparr>)"

text \<open>The copy loop over a base neighbor list: a neighbor that is not available on the
  day or whose arc is forbidden is skipped, every other one is appended to the new list
  (\<open>lastnb->next = newnb\<close>).\<close>

fun copyNeighbors ::
  "bool list list \<Rightarrow> bool list list \<Rightarrow> nat \<Rightarrow> nat \<Rightarrow> nat list \<Rightarrow> nat list \<Rightarrow> nat list" where
  "copyNeighbors tt forb i j [] new = new"
| "copyNeighbors tt forb i j (nb # nbs) new =
     (if \<not> tt ! nb ! j then copyNeighbors tt forb i j nbs new
      else if forb ! i ! nb then copyNeighbors tt forb i j nbs new
      else copyNeighbors tt forb i j nbs (new @ [nb]))"

text \<open>One (customer, day) cell; \<open>depot\<close> tells the depot loop (which has no
  availability test for the row itself) from the customer loop.\<close>

definition setCurrentNeighborhood_cell ::
  "model_data \<Rightarrow> bool \<Rightarrow> nat \<Rightarrow> nat \<Rightarrow> SCIP_PRICERDATA \<Rightarrow> error + SCIP_PRICERDATA" where
  "setCurrentNeighborhood_cell md depot i j pd =
     (if neighbors pd ! i ! j \<noteq> [] then Inl AssertionFailed
      else if \<not> depot \<and> \<not> timetable pd ! i ! j then Inr pd
      else Inr (pd\<lparr>neighbors :=
                    array2_set (neighbors pd) i j
                      (copyNeighbors (timetable pd) (isForbidden pd) i j
                         (modelNeighbors md ! i ! j) [])\<rparr>))"

definition setCurrentNeighborhood :: "model_data \<Rightarrow> SCIP_PRICERDATA \<Rightarrow> error + SCIP_PRICERDATA" where
  "setCurrentNeighborhood md pd =
     (case foldE (\<lambda>i. foldE (setCurrentNeighborhood_cell md False i) [0 ..< nDays md])
             [0 ..< nC md - 1] pd of
        Inl e \<Rightarrow> Inl e
      | Inr pd' \<Rightarrow> foldE (setCurrentNeighborhood_cell md True (nC md - 1)) [0 ..< nDays md] pd')"

subsection \<open>set\_current\_graph\<close>

definition set_current_graph ::
  "model_data \<Rightarrow> ARCFLOW_CONS list \<Rightarrow> VEHICLEASS_CONS list \<Rightarrow> SCIP_PRICERDATA
     \<Rightarrow> error + SCIP_PRICERDATA" where
  "set_current_graph md arcconss vaconss pd =
     (case setArcMatrix md arcconss pd of
        Inl e \<Rightarrow> Inl e
      | Inr st \<Rightarrow>
          (case setTimeTable md vaconss (fst st) of
             Inl e \<Rightarrow> Inl e
           | Inr pd2 \<Rightarrow>
               (case setEnforcedCustomers md pd2 of
                  Inl e \<Rightarrow> Inl e
                | Inr pd3 \<Rightarrow> setCurrentNeighborhood md (clearNeighbors md pd3))))"

text \<open>The arrays of the pricer data have the sizes given at activation
  (\<open>SCIPpricerVrpActivate\<close>): \<open>isForbidden\<close> is \<open>nC \<times> nC\<close>, \<open>timetable\<close> and
  \<open>neighbors\<close> are \<open>nC \<times> nDays\<close>, \<open>toDepot\<close> has \<open>nC - 1\<close> entries, \<open>eC\<close> and
  \<open>nEC\<close> have \<open>nC\<close>.\<close>

definition rect :: "nat \<Rightarrow> nat \<Rightarrow> 'a list list \<Rightarrow> bool" where
  "rect rows cols a = (length a = rows \<and> list_all (\<lambda>r. length r = cols) a)"

text \<open>An update leaves the shape of an array of rows unchanged.\<close>

definition same_shape :: "'a list list \<Rightarrow> 'a list list \<Rightarrow> bool" where
  "same_shape m' m = (length m' = length m \<and> (\<forall>a<length m. length (m' ! a) = length (m ! a)))"

definition pricerdata_sized :: "model_data \<Rightarrow> SCIP_PRICERDATA \<Rightarrow> bool" where
  "pricerdata_sized md pd =
     (rect (nC md) (nC md) (isForbidden pd)
      \<and> rect (nC md) (nDays md) (timetable pd)
      \<and> rect (nC md) (nDays md) (neighbors pd)
      \<and> length (toDepot pd) = nC md - 1
      \<and> length (eC pd) = nC md
      \<and> length (nEC pd) = nC md)"

subsection \<open>pricerRedcostVrp and pricerFarkasVrp: the neighbor cache\<close>

text \<open>
  Both pricing callbacks hold the same test: when \<open>lastnodeid\<close> differs from the number
  of the current node, \<open>set_current_graph\<close> runs and \<open>lastnodeid\<close> becomes that number.
  The state is the pricer data together with a log of the node numbers at which the
  rebuild ran (the log is not in the C code; it is what the properties count). The
  function \<open>rebuild\<close> stands for \<open>set_current_graph\<close> on the records that are active at
  the node; the callbacks ignore its return code. SCIP numbers the root node 1, the value
  \<open>SCIPincludePricerVrp\<close> gives \<open>lastnodeid\<close>.
\<close>

record pricer_state =
  pricerdata :: SCIP_PRICERDATA
  rebuilds :: "int list"

definition check_current_graph ::
  "(int \<Rightarrow> SCIP_PRICERDATA \<Rightarrow> SCIP_PRICERDATA) \<Rightarrow> int \<Rightarrow> pricer_state \<Rightarrow> pricer_state" where
  "check_current_graph rebuild node st =
     (if lastnodeid (pricerdata st) \<noteq> node
      then \<lparr>pricerdata = (rebuild node (pricerdata st))\<lparr>lastnodeid := node\<rparr>,
            rebuilds = rebuilds st @ [node]\<rparr>
      else st)"

text \<open>A callback may return before the test (\<open>NO_REDCOST_PRICING\<close>, \<open>STOP_IF_FEASIBLE\<close>
  with a known solution, or, in Farkas pricing at the root, columns found by the
  heuristic); \<open>early\<close> says so.\<close>

definition pricerRedcostVrp ::
  "(int \<Rightarrow> SCIP_PRICERDATA \<Rightarrow> SCIP_PRICERDATA) \<Rightarrow> bool \<Rightarrow> int \<Rightarrow> pricer_state \<Rightarrow> pricer_state" where
  "pricerRedcostVrp rebuild early node st =
     (if early then st else check_current_graph rebuild node st)"

definition pricerFarkasVrp ::
  "(int \<Rightarrow> SCIP_PRICERDATA \<Rightarrow> SCIP_PRICERDATA) \<Rightarrow> bool \<Rightarrow> int \<Rightarrow> pricer_state \<Rightarrow> pricer_state" where
  "pricerFarkasVrp rebuild early node st =
     (if early then st else check_current_graph rebuild node st)"

datatype pricing_call = REDCOST bool int | FARKAS bool int

fun pricing_calls ::
  "(int \<Rightarrow> SCIP_PRICERDATA \<Rightarrow> SCIP_PRICERDATA) \<Rightarrow> pricing_call list \<Rightarrow> pricer_state
     \<Rightarrow> pricer_state" where
  "pricing_calls rebuild [] st = st"
| "pricing_calls rebuild (REDCOST early node # calls) st =
     pricing_calls rebuild calls (pricerRedcostVrp rebuild early node st)"
| "pricing_calls rebuild (FARKAS early node # calls) st =
     pricing_calls rebuild calls (pricerFarkasVrp rebuild early node st)"

text \<open>The node numbers of the calls that reach the test, in call order.\<close>

fun reached_nodes :: "pricing_call list \<Rightarrow> int list" where
  "reached_nodes [] = []"
| "reached_nodes (REDCOST early node # calls) =
     (if early then reached_nodes calls else node # reached_nodes calls)"
| "reached_nodes (FARKAS early node # calls) =
     (if early then reached_nodes calls else node # reached_nodes calls)"

text \<open>The rebuild at a node with no active record, with the return code ignored.\<close>

definition rebuild_unbranched :: "model_data \<Rightarrow> int \<Rightarrow> SCIP_PRICERDATA \<Rightarrow> SCIP_PRICERDATA" where
  "rebuild_unbranched md node pd =
     (case set_current_graph md [] [] pd of Inl e \<Rightarrow> pd | Inr pd' \<Rightarrow> pd')"

text \<open>A well-formed model: there is a depot, every customer has a window list and
  neighbor lists for every day, window days are days and neighbor ids are customers.\<close>

definition model_wf :: "model_data \<Rightarrow> bool" where
  "model_wf md =
     (0 < nC md
      \<and> length (timeWindows md) = nC md
      \<and> list_all (list_all (\<lambda>w. w < nDays md)) (timeWindows md)
      \<and> rect (nC md) (nDays md) (modelNeighbors md)
      \<and> list_all (list_all (list_all (\<lambda>nb. nb < nC md))) (modelNeighbors md))"

text \<open>The enforced day of a customer in the words of the specification: the day of
  its window list that is still available when exactly one is, and \<open>-1\<close> (none)
  otherwise.\<close>

definition enforcedDay :: "model_data \<Rightarrow> bool list list \<Rightarrow> nat \<Rightarrow> int" where
  "enforcedDay md tt c =
     (case filter (\<lambda>w. tt ! c ! w) (timeWindows md ! c) of
        [d] \<Rightarrow> int d
      | _ \<Rightarrow> - 1)"

text \<open>A vehicle-assignment record leaves day \<open>d\<close> to customer \<open>c\<close>: it is inactive or
  names another customer, or it prohibits another day, or it enforces this day.\<close>

definition allowsDay :: "VEHICLEASS_CONS \<Rightarrow> nat \<Rightarrow> nat \<Rightarrow> bool" where
  "allowsDay r c d =
     (vaActive r \<and> customer (vaData r) = c
        \<longrightarrow> (ctype (vaData r) = VA_PROHIBIT \<longrightarrow> day (vaData r) \<noteq> d)
          \<and> (ctype (vaData r) = VA_ENFORCE \<longrightarrow> day (vaData r) = d))"

text \<open>The base neighbor list of a (customer, day) pair filtered to the neighbors that
  are available on the day and whose arc from the customer is not forbidden, in base
  order.\<close>

definition restrictedNeighbors :: "model_data \<Rightarrow> SCIP_PRICERDATA \<Rightarrow> nat \<Rightarrow> nat \<Rightarrow> nat list" where
  "restrictedNeighbors md pd i j =
     filter (\<lambda>nb. timetable pd ! nb ! j \<and> \<not> isForbidden pd ! i ! nb) (modelNeighbors md ! i ! j)"

text \<open>The neighbor list of a non-depot customer as the specification words it: the single
  enforced successor when there is one; otherwise the base list filtered by availability,
  by the forbidden matrix and by the neighbor not being claimed as the enforced successor
  of another customer (\<open>successor\<close> and \<open>predecessor\<close> are the arrays of the arc
  matrix).\<close>

definition neighbors_as_specified ::
  "model_data \<Rightarrow> SCIP_PRICERDATA \<Rightarrow> int list \<Rightarrow> int list \<Rightarrow> nat \<Rightarrow> nat \<Rightarrow> nat list" where
  "neighbors_as_specified md pd successor predecessor i j =
     (if successor ! i \<noteq> - 1 then [nat (successor ! i)]
      else filter (\<lambda>nb. timetable pd ! nb ! j \<and> \<not> isForbidden pd ! i ! nb
                        \<and> (predecessor ! nb = - 1 \<or> predecessor ! nb = int i))
             (modelNeighbors md ! i ! j))"

text \<open>The forbidden arcs that one active arc record induces, in the words of the
  specification: a prohibited arc itself; for an enforced arc between two customers,
  every other arc leaving the tail and every other arc entering the head; for an
  enforced arc into the depot, the arcs from the tail to non-depot customers; for an
  enforced arc out of the depot, the arcs from non-depot customers to the head.\<close>

definition inducesForbidden :: "nat \<Rightarrow> ARCFLOW_CONS \<Rightarrow> nat \<Rightarrow> nat \<Rightarrow> bool" where
  "inducesForbidden n r a b =
     (arcActive r \<and>
      (if arctype r = PROHIBIT then a = tail r \<and> b = head r
       else if arctype r = ENFORCE then
         (if \<not> isDepot n (head r) \<and> \<not> isDepot n (tail r)
            then (a = tail r \<and> b \<noteq> head r) \<or> (b = head r \<and> a \<noteq> tail r)
          else if isDepot n (head r) then a = tail r \<and> \<not> isDepot n b
          else b = head r \<and> \<not> isDepot n a)
       else False))"

text \<open>The records that clear \<open>toDepot[c]\<close>.\<close>

definition clearsToDepot :: "nat \<Rightarrow> ARCFLOW_CONS \<Rightarrow> nat \<Rightarrow> bool" where
  "clearsToDepot n r c =
     (arcActive r \<and> tail r = c \<and>
      (if arctype r = PROHIBIT then isDepot n (head r)
       else arctype r = ENFORCE \<and> \<not> isDepot n (head r) \<and> \<not> isDepot n (tail r)))"

section \<open>vehicleass\_branching.c\<close>

















section \<open>Verified properties\<close>

lemma tourScan_eq:
  "tourScan us vday cust d =
     (if cust \<in> set us then (if vday = d then 2 else 1) else (if vday = d then 1 else 0))"
  by (induction us) auto

lemma customerAndDayInVar_range:
  "customerAndDayInVar var c d \<in> {0, 1, 2}"
  by (simp add: customerAndDayInVar_def tourScan_eq)

lemma checkVariable_cases:
  "checkVariable consdata var nf co =
     (if fixable consdata var then (var\<lparr>ubLocal := 0\<rparr>, nf + 1, co)
      else if contradicts consdata var then (var, nf, True)
      else (var, nf, co))"
  using customerAndDayInVar_range[of var "customer consdata" "day consdata"]
  by (auto simp: checkVariable_def fixable_def contradicts_def violatesRecord_def SCIPfixVar_def Let_def)

lemma fix_loop_unfold:
  "consdataFixVariables_loop consdata vars nvars v nf co =
     (if v < nvars \<and> \<not> co then
        (if fixable consdata (vars ! v)
           then consdataFixVariables_loop consdata (vars[v := (vars ! v)\<lparr>ubLocal := 0\<rparr>]) nvars
                  (Suc v) (nf + 1) co
         else if contradicts consdata (vars ! v) then (vars, nf, True)
         else consdataFixVariables_loop consdata vars nvars (Suc v) nf co)
      else (vars, nf, co))"
  by (subst consdataFixVariables_loop.simps)
     (simp add: checkVariable_cases consdataFixVariables_loop.simps[of _ _ _ _ _ True])

lemma scanned_self: "scanned consdata vars v v"
  by (simp add: scanned_def)

lemma scanned_step:
  "v < w \<Longrightarrow> scanned consdata vars v w
     = (\<not> contradicts consdata (vars ! v) \<and> scanned consdata vars (Suc v) w)"
  by (auto simp: scanned_def list_all_iff upt_conv_Cons) 

lemma scanned_update:
  "u < v0 \<Longrightarrow> scanned consdata (vars[u := x]) v0 w = scanned consdata vars v0 w"
  by (auto simp: scanned_def list_all_iff)


lemma fixable_not_contradicts: "fixable consdata x \<Longrightarrow> \<not> contradicts consdata x"
  by (simp add: fixable_def contradicts_def)

lemma scanned_lt: "w < v \<Longrightarrow> \<not> scanned consdata vars v w"
  by (simp add: scanned_def)

lemma fix_loop_spec:
  assumes "nvars \<le> length vars"
  shows "consdataFixVariables_loop consdata vars nvars v nf False = (vars', nf', co')
     \<Longrightarrow> length vars' = length vars
       \<and> (\<forall>w < length vars. vars' ! w =
             (if w < nvars \<and> scanned consdata vars v w \<and> fixable consdata (vars ! w)
              then (vars ! w)\<lparr>ubLocal := 0\<rparr> else vars ! w))
       \<and> (co' \<longleftrightarrow> (\<exists>w. v \<le> w \<and> w < nvars \<and> contradicts consdata (vars ! w)))
       \<and> nf \<le> nf'
       \<and> (nf < nf' \<longleftrightarrow> (\<exists>w. w < nvars \<and> scanned consdata vars v w \<and> fixable consdata (vars ! w)))"
  using assms
proof (induction "nvars - v" arbitrary: v vars nf)
  case 0
  then have "\<not> v < nvars" by simp
  with 0 show ?case
    by (subst (asm) fix_loop_unfold) (auto simp: scanned_def)
next
  case (Suc k)
  then have vlt: "v < nvars" and k: "k = nvars - Suc v" by simp_all
  from vlt Suc.prems have vlen: "v < length vars" by simp
  have split: "\<And>w. v \<le> w \<longleftrightarrow> w = v \<or> Suc v \<le> w" by auto
  consider (isfix) "fixable consdata (vars ! v)"
    | (iscut) "\<not> fixable consdata (vars ! v)" "contradicts consdata (vars ! v)"
    | (isskip) "\<not> fixable consdata (vars ! v)" "\<not> contradicts consdata (vars ! v)"
    by blast
  then show ?case
  proof cases
    case isfix
    let ?vars1 = "vars[v := (vars ! v)\<lparr>ubLocal := 0\<rparr>]"
    from Suc.prems(1) vlt isfix
    have run: "consdataFixVariables_loop consdata ?vars1 nvars (Suc v) (nf + 1) False = (vars', nf', co')"
      by (subst (asm) fix_loop_unfold) simp
    have len1: "nvars \<le> length ?vars1" using Suc.prems by simp
    note IH = Suc.hyps(1)[OF k run len1]
    have nc: "\<not> contradicts consdata (vars ! v)" using isfix by (rule fixable_not_contradicts)
    have sc: "\<And>w. w \<noteq> v \<Longrightarrow> scanned consdata ?vars1 (Suc v) w = scanned consdata vars v w"
    proof -
      fix w assume "w \<noteq> v"
      show "scanned consdata ?vars1 (Suc v) w = scanned consdata vars v w"
      proof (cases "v < w")
        case True
        then show ?thesis using nc by (simp add: scanned_step[of v w] scanned_update)
      next
        case False
        with \<open>w \<noteq> v\<close> have "w < v" by simp
        then show ?thesis by (simp add: scanned_lt)
      qed
    qed
    have A: "length vars' = length vars" using IH by simp
    have B: "\<forall>w < length vars. vars' ! w =
             (if w < nvars \<and> scanned consdata vars v w \<and> fixable consdata (vars ! w)
              then (vars ! w)\<lparr>ubLocal := 0\<rparr> else vars ! w)"
    proof (intro allI impI)
      fix w assume w: "w < length vars"
      show "vars' ! w = (if w < nvars \<and> scanned consdata vars v w \<and> fixable consdata (vars ! w)
              then (vars ! w)\<lparr>ubLocal := 0\<rparr> else vars ! w)"
      proof (cases "w = v")
        case True
        then show ?thesis using IH w vlt isfix by (simp add: scanned_lt scanned_self)
      next
        case False
        then show ?thesis using IH w sc[OF False] by simp
      qed
    qed
    have C: "co' \<longleftrightarrow> (\<exists>w. v \<le> w \<and> w < nvars \<and> contradicts consdata (vars ! w))"
    proof -
      have "co' \<longleftrightarrow> (\<exists>w. Suc v \<le> w \<and> w < nvars \<and> contradicts consdata (?vars1 ! w))"
        using IH by simp
      also have "\<dots> \<longleftrightarrow> (\<exists>w. Suc v \<le> w \<and> w < nvars \<and> contradicts consdata (vars ! w))"
        by (rule ex_cong1) auto
      also have "\<dots> \<longleftrightarrow> (\<exists>w. v \<le> w \<and> w < nvars \<and> contradicts consdata (vars ! w))"
        using nc by (metis Suc_leD Suc_leI le_neq_implies_less)
      finally show ?thesis .
    qed
    have D: "nf \<le> nf'" "nf < nf'" using IH by simp_all
    have E: "\<exists>w. w < nvars \<and> scanned consdata vars v w \<and> fixable consdata (vars ! w)"
      using vlt isfix scanned_self by blast
    show ?thesis using A B C D E by simp
  next
    case iscut
    from Suc.prems(1) vlt iscut
    have res: "vars' = vars" "nf' = nf" "co'"
      by (subst (asm) fix_loop_unfold, simp)+
    have noscan: "\<And>w. v < w \<Longrightarrow> \<not> scanned consdata vars v w"
      using iscut by (simp add: scanned_step)
    have nofix: "\<And>w. scanned consdata vars v w \<Longrightarrow> \<not> fixable consdata (vars ! w)"
    proof -
      fix w assume s: "scanned consdata vars v w"
      then have "w = v" using noscan[of w] scanned_lt[of w v consdata vars] by (meson linorder_neqE_nat)
      then show "\<not> fixable consdata (vars ! w)" using iscut by simp
    qed
    show ?thesis using res vlt iscut nofix by auto
  next
    case isskip
    from Suc.prems(1) vlt isskip
    have run: "consdataFixVariables_loop consdata vars nvars (Suc v) nf False = (vars', nf', co')"
      by (subst (asm) fix_loop_unfold) simp
    note IH = Suc.hyps(1)[OF k run Suc.prems(2)]
    have sc: "\<And>w. w \<noteq> v \<Longrightarrow> scanned consdata vars (Suc v) w = scanned consdata vars v w"
    proof -
      fix w assume "w \<noteq> v"
      show "scanned consdata vars (Suc v) w = scanned consdata vars v w"
      proof (cases "v < w")
        case True
        then show ?thesis using isskip by (simp add: scanned_step[of v w])
      next
        case False
        with \<open>w \<noteq> v\<close> have "w < v" by simp
        then show ?thesis by (simp add: scanned_lt)
      qed
    qed
    have A: "length vars' = length vars" using IH by simp
    have B: "\<forall>w < length vars. vars' ! w =
             (if w < nvars \<and> scanned consdata vars v w \<and> fixable consdata (vars ! w)
              then (vars ! w)\<lparr>ubLocal := 0\<rparr> else vars ! w)"
    proof (intro allI impI)
      fix w assume w: "w < length vars"
      show "vars' ! w = (if w < nvars \<and> scanned consdata vars v w \<and> fixable consdata (vars ! w)
              then (vars ! w)\<lparr>ubLocal := 0\<rparr> else vars ! w)"
      proof (cases "w = v")
        case True
        then show ?thesis using IH w vlt isskip by (simp add: scanned_lt)
      next
        case False
        then show ?thesis using IH w sc[OF False] by simp
      qed
    qed
    have C: "co' \<longleftrightarrow> (\<exists>w. v \<le> w \<and> w < nvars \<and> contradicts consdata (vars ! w))"
    proof -
      have "co' \<longleftrightarrow> (\<exists>w. Suc v \<le> w \<and> w < nvars \<and> contradicts consdata (vars ! w))"
        using IH by simp
      also have "\<dots> \<longleftrightarrow> (\<exists>w. v \<le> w \<and> w < nvars \<and> contradicts consdata (vars ! w))"
        using isskip by (metis Suc_leD Suc_leI le_neq_implies_less)
      finally show ?thesis .
    qed
    have D: "nf \<le> nf'" using IH by simp
    have E: "(nf < nf') \<longleftrightarrow> (\<exists>w. w < nvars \<and> scanned consdata vars v w \<and> fixable consdata (vars ! w))"
    proof -
      have "(nf < nf') \<longleftrightarrow> (\<exists>w. w < nvars \<and> scanned consdata vars (Suc v) w \<and> fixable consdata (vars ! w))"
        using IH by simp
      also have "\<dots> \<longleftrightarrow> (\<exists>w. w < nvars \<and> scanned consdata vars v w \<and> fixable consdata (vars ! w))"
        using sc isskip scanned_lt[of v "Suc v" consdata vars] by (metis lessI)
      finally show ?thesis .
    qed
    show ?thesis using A B C D E by simp
  qed
qed

subsection \<open>Arrays of rows\<close>

lemma length_array2_set: "length (array2_set m i j v) = length m"
  by (simp add: array2_set_def)

lemma length_array2_set_nth:
  "a < length m \<Longrightarrow> length (array2_set m i j v ! a) = length (m ! a)"
  by (cases "a = i") (simp_all add: array2_set_def)

lemma array2_set_nth:
  "a < length m \<Longrightarrow> b < length (m ! a)
     \<Longrightarrow> array2_set m i j v ! a ! b = (if a = i \<and> b = j then v else m ! a ! b)"
  by (cases "a = i") (auto simp: array2_set_def nth_list_update)

lemma rect_iff: "rect r c m \<longleftrightarrow> length m = r \<and> (\<forall>a<r. length (m ! a) = c)"
  by (auto simp: rect_def list_all_length)

lemma same_shape_refl: "same_shape m m"
  by (simp add: same_shape_def)

lemma same_shape_trans: "same_shape m'' m' \<Longrightarrow> same_shape m' m \<Longrightarrow> same_shape m'' m"
  by (simp add: same_shape_def)

lemma same_shape_set: "same_shape (array2_set m i j v) m"
  by (simp add: same_shape_def length_array2_set length_array2_set_nth)

lemma same_shape_rect: "same_shape m' m \<Longrightarrow> rect r c m \<Longrightarrow> rect r c m'"
  by (simp add: same_shape_def rect_iff)

lemma fold_row_set:
  "same_shape (fold (\<lambda>j a. array2_set a t j v) js m) m
     \<and> (\<forall>a<length m. \<forall>b<length (m ! a). fold (\<lambda>j a. array2_set a t j v) js m ! a ! b
            = (if a = t \<and> b \<in> set js then v else m ! a ! b))"
proof (induction js arbitrary: m)
  case Nil
  then show ?case by (simp add: same_shape_refl)
next
  case (Cons j js)
  note IH = Cons.IH[of "array2_set m t j v"]
  have sh: "same_shape (fold (\<lambda>j a. array2_set a t j v) (j # js) m) m"
    using IH same_shape_set[of m t j v] by (auto intro: same_shape_trans)
  have "\<forall>a<length m. \<forall>b<length (m ! a). fold (\<lambda>j a. array2_set a t j v) (j # js) m ! a ! b
            = (if a = t \<and> b \<in> set (j # js) then v else m ! a ! b)"
    using IH by (auto simp: length_array2_set length_array2_set_nth array2_set_nth)
  with sh show ?case by simp
qed

lemma fold_column_set:
  "same_shape (fold (\<lambda>j a. array2_set a j h v) js m) m
     \<and> (\<forall>a<length m. \<forall>b<length (m ! a). fold (\<lambda>j a. array2_set a j h v) js m ! a ! b
            = (if b = h \<and> a \<in> set js then v else m ! a ! b))"
proof (induction js arbitrary: m)
  case Nil
  then show ?case by (simp add: same_shape_refl)
next
  case (Cons j js)
  note IH = Cons.IH[of "array2_set m j h v"]
  have sh: "same_shape (fold (\<lambda>j a. array2_set a j h v) (j # js) m) m"
    using IH same_shape_set[of m j h v] by (auto intro: same_shape_trans)
  have "\<forall>a<length m. \<forall>b<length (m ! a). fold (\<lambda>j a. array2_set a j h v) (j # js) m ! a ! b
            = (if b = h \<and> a \<in> set (j # js) then v else m ! a ! b)"
    using IH by (auto simp: length_array2_set length_array2_set_nth array2_set_nth)
  with sh show ?case by simp
qed

lemma around_step:
  "same_shape (let a1 = (if j \<noteq> h then array2_set m t j True else m)
                  in (if j \<noteq> t then array2_set a1 j h True else a1)) m
   \<and> (\<forall>a<length m. \<forall>b<length (m ! a).
        (let a1 = (if j \<noteq> h then array2_set m t j True else m)
                  in (if j \<noteq> t then array2_set a1 j h True else a1)) ! a ! b
         = (m ! a ! b \<or> (a = t \<and> b = j \<and> b \<noteq> h) \<or> (b = h \<and> a = j \<and> a \<noteq> t)))"
  by (auto simp: Let_def same_shape_def length_array2_set length_array2_set_nth array2_set_nth)

lemma fold_around_set:
  "same_shape (fold (\<lambda>j a. let a1 = (if j \<noteq> h then array2_set a t j True else a)
                  in (if j \<noteq> t then array2_set a1 j h True else a1)) js m) m
     \<and> (\<forall>a<length m. \<forall>b<length (m ! a).
           fold (\<lambda>j a. let a1 = (if j \<noteq> h then array2_set a t j True else a)
                  in (if j \<noteq> t then array2_set a1 j h True else a1)) js m ! a ! b
            = (m ! a ! b \<or> (a = t \<and> b \<in> set js \<and> b \<noteq> h) \<or> (b = h \<and> a \<in> set js \<and> a \<noteq> t)))"
proof (induction js arbitrary: m)
  case Nil
  then show ?case by (simp add: same_shape_refl)
next
  case (Cons j js)
  define m1 where "m1 = (let a1 = (if j \<noteq> h then array2_set m t j True else m)
                  in (if j \<noteq> t then array2_set a1 j h True else a1))"
  have st: "same_shape m1 m"
    and m1: "\<forall>a<length m. \<forall>b<length (m ! a). m1 ! a ! b
         = (m ! a ! b \<or> (a = t \<and> b = j \<and> b \<noteq> h) \<or> (b = h \<and> a = j \<and> a \<noteq> t))"
    using around_step[of j h m t] unfolding m1_def by blast+
  note IH = Cons.IH[of m1]
  have f: "fold (\<lambda>j a. let a1 = (if j \<noteq> h then array2_set a t j True else a)
                  in (if j \<noteq> t then array2_set a1 j h True else a1)) (j # js) m
         = fold (\<lambda>j a. let a1 = (if j \<noteq> h then array2_set a t j True else a)
                  in (if j \<noteq> t then array2_set a1 j h True else a1)) js m1"
    by (simp add: m1_def)
  show ?case unfolding f
  proof (intro conjI allI impI)
    show "same_shape (fold (\<lambda>j a. let a1 = (if j \<noteq> h then array2_set a t j True else a)
                  in (if j \<noteq> t then array2_set a1 j h True else a1)) js m1) m"
      using IH st by (blast intro: same_shape_trans)
  next
    fix a b assume ab: "a < length m" "b < length (m ! a)"
    with st have ab1: "a < length m1" "b < length (m1 ! a)" by (simp_all add: same_shape_def)
    from IH ab1 have "fold (\<lambda>j a. let a1 = (if j \<noteq> h then array2_set a t j True else a)
                  in (if j \<noteq> t then array2_set a1 j h True else a1)) js m1 ! a ! b
        = (m1 ! a ! b \<or> (a = t \<and> b \<in> set js \<and> b \<noteq> h) \<or> (b = h \<and> a \<in> set js \<and> a \<noteq> t))"
      by blast
    also have "m1 ! a ! b = (m ! a ! b \<or> (a = t \<and> b = j \<and> b \<noteq> h) \<or> (b = h \<and> a = j \<and> a \<noteq> t))"
      using m1 ab by blast
    finally show "fold (\<lambda>j a. let a1 = (if j \<noteq> h then array2_set a t j True else a)
                  in (if j \<noteq> t then array2_set a1 j h True else a1)) js m1 ! a ! b
        = (m ! a ! b \<or> (a = t \<and> b \<in> set (j # js) \<and> b \<noteq> h) \<or> (b = h \<and> a \<in> set (j # js) \<and> a \<noteq> t))"
      by auto
  qed
qed

lemma forbidRow_spec:
  assumes "rect n n m"
  shows "rect n n (forbidRow n t m)"
    and "a < n \<Longrightarrow> b < n \<Longrightarrow> forbidRow n t m ! a ! b = (m ! a ! b \<or> (a = t \<and> \<not> isDepot n b))"
  using fold_row_set[of t True "[0 ..< n - 1]" m] assms
  by (auto simp: forbidRow_def isDepot_def rect_iff same_shape_def)

lemma forbidColumn_spec:
  assumes "rect n n m"
  shows "rect n n (forbidColumn n h m)"
    and "a < n \<Longrightarrow> b < n \<Longrightarrow> forbidColumn n h m ! a ! b = (m ! a ! b \<or> (b = h \<and> \<not> isDepot n a))"
  using fold_column_set[of h True "[0 ..< n - 1]" m] assms
  by (auto simp: forbidColumn_def isDepot_def rect_iff same_shape_def)

lemma forbidAround_spec:
  assumes "rect n n m"
  shows "rect n n (forbidAround n t h m)"
    and "a < n \<Longrightarrow> b < n \<Longrightarrow> forbidAround n t h m ! a ! b
           = (m ! a ! b \<or> (a = t \<and> b \<noteq> h) \<or> (b = h \<and> a \<noteq> t))"
  using fold_around_set[of h t "[0 ..< n]" m] assms
  by (auto simp: forbidAround_def rect_iff same_shape_def)

lemma fold_fill_rows:
  "same_shape (fold (\<lambda>i a. fold (\<lambda>j a. array2_set a i j v) js a) is m) m
     \<and> (\<forall>a<length m. \<forall>b<length (m ! a).
          fold (\<lambda>i a. fold (\<lambda>j a. array2_set a i j v) js a) is m ! a ! b
            = (if a \<in> set is \<and> b \<in> set js then v else m ! a ! b))"
proof (induction "is" arbitrary: m)
  case Nil
  then show ?case by (simp add: same_shape_refl)
next
  case (Cons i "is")
  define m1 where "m1 = fold (\<lambda>j a. array2_set a i j v) js m"
  have st: "same_shape m1 m"
    and m1: "\<forall>a<length m. \<forall>b<length (m ! a). m1 ! a ! b = (if a = i \<and> b \<in> set js then v else m ! a ! b)"
    using fold_row_set[of i v js m] unfolding m1_def by blast+
  note IH = Cons.IH[of m1]
  have f: "fold (\<lambda>i a. fold (\<lambda>j a. array2_set a i j v) js a) (i # is) m
         = fold (\<lambda>i a. fold (\<lambda>j a. array2_set a i j v) js a) is m1"
    by (simp add: m1_def)
  show ?case unfolding f
  proof (intro conjI allI impI)
    show "same_shape (fold (\<lambda>i a. fold (\<lambda>j a. array2_set a i j v) js a) is m1) m"
      using IH st by (blast intro: same_shape_trans)
  next
    fix a b assume ab: "a < length m" "b < length (m ! a)"
    with st have ab1: "a < length m1" "b < length (m1 ! a)" by (simp_all add: same_shape_def)
    from IH ab1 have "fold (\<lambda>i a. fold (\<lambda>j a. array2_set a i j v) js a) is m1 ! a ! b
        = (if a \<in> set is \<and> b \<in> set js then v else m1 ! a ! b)"
      by blast
    also have "m1 ! a ! b = (if a = i \<and> b \<in> set js then v else m ! a ! b)"
      using m1 ab by blast
    finally show "fold (\<lambda>i a. fold (\<lambda>j a. array2_set a i j v) js a) is m1 ! a ! b
        = (if a \<in> set (i # is) \<and> b \<in> set js then v else m ! a ! b)"
      by auto
  qed
qed

lemma fold_fill:
  "length (fold (\<lambda>i t. t[i := v]) is t) = length t
     \<and> (\<forall>c<length t. fold (\<lambda>i t. t[i := v]) is t ! c = (if c \<in> set is then v else t ! c))"
  by (induction "is" arbitrary: t) (auto simp: nth_list_update)

subsection \<open>The arc matrix\<close>

lemma setArcMatrix_init_spec:
  assumes "rect n n (isForbidden pd)"
  shows "rect n n (isForbidden (fst (setArcMatrix_init n pd)))"
    and "length (toDepot (fst (setArcMatrix_init n pd))) = length (toDepot pd)"
    and "a < n \<Longrightarrow> b < n \<Longrightarrow> \<not> isForbidden (fst (setArcMatrix_init n pd)) ! a ! b"
    and "c < n - 1 \<Longrightarrow> c < length (toDepot pd) \<Longrightarrow> toDepot (fst (setArcMatrix_init n pd)) ! c"
    and "snd (setArcMatrix_init n pd) = (replicate n (- 1), replicate n (- 1))"
    and "timetable (fst (setArcMatrix_init n pd)) = timetable pd"
    and "eC (fst (setArcMatrix_init n pd)) = eC pd"
    and "nEC (fst (setArcMatrix_init n pd)) = nEC pd"
    and "neighbors (fst (setArcMatrix_init n pd)) = neighbors pd"
    and "lastnodeid (fst (setArcMatrix_init n pd)) = lastnodeid pd"
  using fold_fill_rows[of False "[0 ..< n]" "[0 ..< n]" "isForbidden pd"]
        fold_fill[of True "[0 ..< n - 1]" "toDepot pd"] assms
  by (auto simp: setArcMatrix_init_def rect_iff same_shape_def)

lemma setArcMatrix_step_cases:
  assumes "setArcMatrix_step n r (pd, s, p) = Inr (pd', s', p')"
  obtains (inactive) "\<not> arcActive r" "pd' = pd" "s' = s" "p' = p"
  | (prohibit) "arcActive r" "arctype r = PROHIBIT" "\<not> isForbidden pd ! tail r ! head r"
      "pd' = pd\<lparr>isForbidden := array2_set (isForbidden pd) (tail r) (head r) True,
                 toDepot := (if isDepot n (head r) then (toDepot pd)[tail r := False]
                             else toDepot pd)\<rparr>"
      "s' = s" "p' = p"
  | (around) "arcActive r" "arctype r = ENFORCE" "\<not> isDepot n (head r)" "\<not> isDepot n (tail r)"
      "s ! tail r = - 1" "p ! head r = - 1"
      "pd' = pd\<lparr>toDepot := (toDepot pd)[tail r := False],
                 isForbidden := forbidAround n (tail r) (head r) (isForbidden pd)\<rparr>"
      "s' = s[tail r := int (head r)]" "p' = p[head r := int (tail r)]"
  | (row) "arcActive r" "arctype r = ENFORCE" "isDepot n (head r)"
      "isDepot n (tail r) \<or> s ! tail r = - 1"
      "pd' = pd\<lparr>isForbidden := forbidRow n (tail r) (isForbidden pd)\<rparr>"
      "s' = s[tail r := int (head r)]" "p' = p[head r := int (tail r)]"
  | (column) "arcActive r" "arctype r = ENFORCE" "\<not> isDepot n (head r)" "isDepot n (tail r)"
      "p ! head r = - 1"
      "pd' = pd\<lparr>isForbidden := forbidColumn n (head r) (isForbidden pd)\<rparr>"
      "s' = s[tail r := int (head r)]" "p' = p[head r := int (tail r)]"
proof (cases "arcActive r")
  case False
  with assms that(1) show ?thesis by (simp add: setArcMatrix_step_def)
next
  case act: True
  show ?thesis
  proof (cases "arctype r")
    case PROHIBIT
    with assms act that(2) show ?thesis
      by (simp add: setArcMatrix_step_def split: if_splits)
  next
    case ENFORCE
    show ?thesis
    proof (cases "isDepot n (head r)")
      case True
      with assms act ENFORCE that(4) show ?thesis
        by (simp add: setArcMatrix_step_def split: if_splits)
    next
      case hd: False
      show ?thesis
      proof (cases "isDepot n (tail r)")
        case True
        with assms act ENFORCE hd that(5) show ?thesis
          by (simp add: setArcMatrix_step_def split: if_splits)
      next
        case False
        with assms act ENFORCE hd that(3) show ?thesis
          by (simp add: setArcMatrix_step_def split: if_splits)
      qed
    qed
  next
    case ARC_OTHER
    with assms act show ?thesis by (simp add: setArcMatrix_step_def)
  qed
qed

lemma step_rect:
  assumes run: "setArcMatrix_step n r (pd, s, p) = Inr (pd', s', p')"
    and shape: "rect n n (isForbidden pd)"
  shows "rect n n (isForbidden pd')"
  using run
proof (cases rule: setArcMatrix_step_cases)
  case inactive
  then show ?thesis using shape by simp
next
  case prohibit
  have "rect n n (array2_set (isForbidden pd) (tail r) (head r) True)"
    by (rule same_shape_rect[OF same_shape_set shape])
  with prohibit show ?thesis by simp
next
  case around
  with forbidAround_spec(1)[OF shape] show ?thesis by simp
next
  case row
  with forbidRow_spec(1)[OF shape] show ?thesis by simp
next
  case column
  with forbidColumn_spec(1)[OF shape] show ?thesis by simp
qed

lemma step_lengths:
  assumes run: "setArcMatrix_step n r (pd, s, p) = Inr (pd', s', p')"
  shows "length (toDepot pd') = length (toDepot pd) \<and> length s' = length s \<and> length p' = length p"
  using run by (cases rule: setArcMatrix_step_cases) simp_all

lemma step_frame:
  assumes run: "setArcMatrix_step n r (pd, s, p) = Inr (pd', s', p')"
  shows "timetable pd' = timetable pd \<and> eC pd' = eC pd \<and> nEC pd' = nEC pd
    \<and> neighbors pd' = neighbors pd \<and> lastnodeid pd' = lastnodeid pd"
  using run by (cases rule: setArcMatrix_step_cases) simp_all

lemma nth_list_update_any:
  "c < length xs \<Longrightarrow> xs[i := x] ! c = (if i = c then x else xs ! c)"
  by (cases "i = c") simp_all

lemma step_toDepot:
  assumes run: "setArcMatrix_step n r (pd, s, p) = Inr (pd', s', p')"
    and c: "c < length (toDepot pd)"
  shows "toDepot pd' ! c = (toDepot pd ! c \<and> \<not> clearsToDepot n r c)"
  using run
proof (cases rule: setArcMatrix_step_cases)
  case inactive
  then show ?thesis by (simp add: clearsToDepot_def)
next
  case prohibit
  then show ?thesis using c by (auto simp add: clearsToDepot_def nth_list_update_any)
next
  case around
  then show ?thesis using c by (auto simp add: clearsToDepot_def nth_list_update_any)
next
  case row
  then show ?thesis by (simp add: clearsToDepot_def)
next
  case column
  then show ?thesis by (simp add: clearsToDepot_def)
qed

lemma step_forbidden:
  assumes run: "setArcMatrix_step n r (pd, s, p) = Inr (pd', s', p')"
    and shape: "rect n n (isForbidden pd)"
    and ab: "a < n" "b < n"
  shows "isForbidden pd' ! a ! b = (isForbidden pd ! a ! b \<or> inducesForbidden n r a b)"
  using run
proof (cases rule: setArcMatrix_step_cases)
  case inactive
  then show ?thesis by (simp add: inducesForbidden_def)
next
  case prohibit
  have "array2_set (isForbidden pd) (tail r) (head r) True ! a ! b
      = (if a = tail r \<and> b = head r then True else isForbidden pd ! a ! b)"
    using shape ab by (simp add: rect_iff array2_set_nth)
  with prohibit show ?thesis by (simp add: inducesForbidden_def) blast
next
  case around
  with forbidAround_spec(2)[OF shape ab] show ?thesis
    by (simp add: inducesForbidden_def)
next
  case row
  with forbidRow_spec(2)[OF shape ab] show ?thesis
    by (simp add: inducesForbidden_def)
next
  case column
  with forbidColumn_spec(2)[OF shape ab] show ?thesis
    by (simp add: inducesForbidden_def)
qed

lemma setArcMatrix_conss_spec:
  assumes "setArcMatrix_conss n conss (pd, s, p) = Inr (pd', s', p')"
    and "rect n n (isForbidden pd)"
  shows "rect n n (isForbidden pd')
    \<and> length (toDepot pd') = length (toDepot pd) \<and> length s' = length s \<and> length p' = length p
    \<and> (\<forall>a<n. \<forall>b<n. isForbidden pd' ! a ! b
          = (isForbidden pd ! a ! b \<or> (\<exists>r\<in>set conss. inducesForbidden n r a b)))
    \<and> (\<forall>c<length (toDepot pd). toDepot pd' ! c
          = (toDepot pd ! c \<and> \<not> (\<exists>r\<in>set conss. clearsToDepot n r c)))
    \<and> timetable pd' = timetable pd \<and> eC pd' = eC pd \<and> nEC pd' = nEC pd
    \<and> neighbors pd' = neighbors pd \<and> lastnodeid pd' = lastnodeid pd"
  using assms
proof (induction conss arbitrary: pd s p)
  case Nil
  then show ?case by simp
next
  case (Cons r conss)
  from Cons.prems(1) obtain pd1 s1 p1
    where step: "setArcMatrix_step n r (pd, s, p) = Inr (pd1, s1, p1)"
      and rest: "setArcMatrix_conss n conss (pd1, s1, p1) = Inr (pd', s', p')"
    by (auto split: sum.splits)
  note r1 = step_rect[OF step Cons.prems(2)]
  note l1 = step_lengths[OF step]
  note f1 = step_frame[OF step]
  note IH = Cons.IH[OF rest r1]
  have forb: "\<forall>a<n. \<forall>b<n. isForbidden pd' ! a ! b
          = (isForbidden pd ! a ! b \<or> (\<exists>r\<in>set (r # conss). inducesForbidden n r a b))"
  proof (intro allI impI)
    fix a b assume ab: "a < n" "b < n"
    from IH ab have "isForbidden pd' ! a ! b
        = (isForbidden pd1 ! a ! b \<or> (\<exists>r\<in>set conss. inducesForbidden n r a b))" by blast
    also note step_forbidden[OF step Cons.prems(2) ab]
    finally show "isForbidden pd' ! a ! b
          = (isForbidden pd ! a ! b \<or> (\<exists>r\<in>set (r # conss). inducesForbidden n r a b))"
      by auto
  qed
  have dep: "\<forall>c<length (toDepot pd). toDepot pd' ! c
          = (toDepot pd ! c \<and> \<not> (\<exists>r\<in>set (r # conss). clearsToDepot n r c))"
  proof (intro allI impI)
    fix c assume c: "c < length (toDepot pd)"
    with l1 have c1: "c < length (toDepot pd1)" by simp
    from IH c1 have "toDepot pd' ! c
        = (toDepot pd1 ! c \<and> \<not> (\<exists>r\<in>set conss. clearsToDepot n r c))" by blast
    also note step_toDepot[OF step c]
    finally show "toDepot pd' ! c
          = (toDepot pd ! c \<and> \<not> (\<exists>r\<in>set (r # conss). clearsToDepot n r c))"
      by auto
  qed
  from IH l1 f1 forb dep show ?case by simp
qed

lemma step_successor_kept:
  assumes "setArcMatrix_step n r (pd, s, p) = Inr (pd', s', p')"
    and "\<not> isDepot n t" and "s ! t \<noteq> - 1"
  shows "s' ! t = s ! t"
  using assms(1)
  by (cases rule: setArcMatrix_step_cases; cases "tail r = t"; use assms(2,3) in simp)

lemma step_predecessor_kept:
  assumes "setArcMatrix_step n r (pd, s, p) = Inr (pd', s', p')"
    and "\<not> isDepot n h" and "p ! h \<noteq> - 1"
  shows "p' ! h = p ! h"
  using assms(1)
  by (cases rule: setArcMatrix_step_cases; cases "head r = h"; use assms(2,3) in simp)

lemma conss_successor_kept:
  assumes "setArcMatrix_conss n conss (pd, s, p) = Inr (pd', s', p')"
    and "\<not> isDepot n t" and "s ! t \<noteq> - 1"
  shows "s' ! t = s ! t"
  using assms
proof (induction conss arbitrary: pd s p)
  case Nil
  then show ?case by simp
next
  case (Cons r conss)
  from Cons.prems(1) obtain pd1 s1 p1
    where step: "setArcMatrix_step n r (pd, s, p) = Inr (pd1, s1, p1)"
      and rest: "setArcMatrix_conss n conss (pd1, s1, p1) = Inr (pd', s', p')"
    by (auto split: sum.splits)
  from step_successor_kept[OF step Cons.prems(2,3)] have k: "s1 ! t = s ! t" .
  with Cons.prems(3) have "s1 ! t \<noteq> - 1" by simp
  from Cons.IH[OF rest Cons.prems(2) this] k show ?case by simp
qed

lemma conss_predecessor_kept:
  assumes "setArcMatrix_conss n conss (pd, s, p) = Inr (pd', s', p')"
    and "\<not> isDepot n h" and "p ! h \<noteq> - 1"
  shows "p' ! h = p ! h"
  using assms
proof (induction conss arbitrary: pd s p)
  case Nil
  then show ?case by simp
next
  case (Cons r conss)
  from Cons.prems(1) obtain pd1 s1 p1
    where step: "setArcMatrix_step n r (pd, s, p) = Inr (pd1, s1, p1)"
      and rest: "setArcMatrix_conss n conss (pd1, s1, p1) = Inr (pd', s', p')"
    by (auto split: sum.splits)
  from step_predecessor_kept[OF step Cons.prems(2,3)] have k: "p1 ! h = p ! h" .
  with Cons.prems(3) have "p1 ! h \<noteq> - 1" by simp
  from Cons.IH[OF rest Cons.prems(2) this] k show ?case by simp
qed

lemma conss_enforced_recorded:
  assumes "setArcMatrix_conss n conss (pd, s, p) = Inr (pd', s', p')"
    and "r \<in> set conss" and "arcActive r" and "arctype r = ENFORCE"
    and "\<not> isDepot n (tail r)" and "\<not> isDepot n (head r)"
    and "tail r < length s" and "head r < length p"
  shows "s' ! tail r = int (head r) \<and> p' ! head r = int (tail r)"
  using assms
proof (induction conss arbitrary: pd s p)
  case Nil
  then show ?case by simp
next
  case (Cons c conss)
  from Cons.prems(1) obtain pd1 s1 p1
    where step: "setArcMatrix_step n c (pd, s, p) = Inr (pd1, s1, p1)"
      and rest: "setArcMatrix_conss n conss (pd1, s1, p1) = Inr (pd', s', p')"
    by (auto split: sum.splits)
  note l1 = step_lengths[OF step]
  show ?case
  proof (cases "c = r")
    case True
    from step have s1: "s1 ! tail r = int (head r)" and p1: "p1 ! head r = int (tail r)"
      by (cases rule: setArcMatrix_step_cases; use True Cons.prems in simp)+
    have "s1 ! tail r \<noteq> - 1" "p1 ! head r \<noteq> - 1" using s1 p1 by simp_all
    with conss_successor_kept[OF rest Cons.prems(5)] conss_predecessor_kept[OF rest Cons.prems(6)]
      s1 p1 show ?thesis by simp
  next
    case False
    with Cons.prems(2) have "r \<in> set conss" by simp
    from Cons.IH[OF rest this Cons.prems(3-6)] l1 Cons.prems(7,8) show ?thesis by simp
  qed
qed

lemma induced_into_depot_clears:
  "inducesForbidden n r c (n - 1) \<Longrightarrow> c < n - 1 \<Longrightarrow> clearsToDepot n r c"
  by (auto simp: inducesForbidden_def clearsToDepot_def isDepot_def split: if_splits)

lemma setArcMatrix_spec:
  assumes run: "setArcMatrix md conss pd = Inr (pd', s', p')"
    and shape: "rect (nC md) (nC md) (isForbidden pd)"
    and td: "length (toDepot pd) = nC md - 1"
  shows "rect (nC md) (nC md) (isForbidden pd')"
    and "length (toDepot pd') = nC md - 1"
    and "length s' = nC md" and "length p' = nC md"
    and "a < nC md \<Longrightarrow> b < nC md \<Longrightarrow>
           isForbidden pd' ! a ! b = (\<exists>r\<in>set conss. inducesForbidden (nC md) r a b)"
    and "c < nC md - 1 \<Longrightarrow> toDepot pd' ! c = (\<not> (\<exists>r\<in>set conss. clearsToDepot (nC md) r c))"
    and "timetable pd' = timetable pd" and "eC pd' = eC pd" and "nEC pd' = nEC pd"
    and "neighbors pd' = neighbors pd" and "lastnodeid pd' = lastnodeid pd"
proof -
  obtain pd0 where init: "setArcMatrix_init (nC md) pd = (pd0, replicate (nC md) (- 1), replicate (nC md) (- 1))"
    using setArcMatrix_init_spec(5)[OF shape] by (cases "setArcMatrix_init (nC md) pd") simp
  then have pd0: "pd0 = fst (setArcMatrix_init (nC md) pd)" by simp
  note i = setArcMatrix_init_spec[OF shape, folded pd0]
  from run init have run0: "setArcMatrix_conss (nC md) conss
      (pd0, replicate (nC md) (- 1), replicate (nC md) (- 1)) = Inr (pd', s', p')"
    by (simp add: setArcMatrix_def)
  note c = setArcMatrix_conss_spec[OF run0 i(1)]
  show "rect (nC md) (nC md) (isForbidden pd')" "length (toDepot pd') = nC md - 1"
    "length s' = nC md" "length p' = nC md"
    using c i(2) td by simp_all
  show "a < nC md \<Longrightarrow> b < nC md \<Longrightarrow>
           isForbidden pd' ! a ! b = (\<exists>r\<in>set conss. inducesForbidden (nC md) r a b)"
    using c i(3)[of a b] by simp
  show "c < nC md - 1 \<Longrightarrow> toDepot pd' ! c = (\<not> (\<exists>r\<in>set conss. clearsToDepot (nC md) r c))"
    using c i(2) i(4)[of c] td by simp
  show "timetable pd' = timetable pd" "eC pd' = eC pd" "nEC pd' = nEC pd"
    "neighbors pd' = neighbors pd" "lastnodeid pd' = lastnodeid pd"
    using c i(6-10) by simp_all
qed

lemma isOK_obtain: "isOK x \<Longrightarrow> \<exists>y. x = Inr y"
  by (cases x) (simp_all add: isOK_def)

text \<open>
  Claim C4. After a rebuild of the arc matrix that completes (no assertion fails), for an
  active ENFORCE record \<open>(tail, head)\<close> among the arc records: if neither endpoint is
  the depot then \<open>successor[tail] = head\<close>, \<open>predecessor[head] = tail\<close>,
  \<open>forbidden[tail][j]\<close> holds for every \<open>j \<noteq> head\<close>, \<open>forbidden[j][head]\<close> holds for every
  \<open>j \<noteq> tail\<close>, and \<open>toDepot[tail]\<close> is false. If the head is the depot, the arcs from
  the tail to every non-depot customer are forbidden, and these are the only forbidden
  arcs when the record is the only one. If the tail is the depot (and the head is not),
  the arcs from every non-depot customer to the head are forbidden, and these are the only
  forbidden arcs when the record is the only one.
\<close>

theorem setArcMatrix_enforced_arc:
  assumes run: "setArcMatrix md conss pd = Inr (pd', successor, predecessor)"
    and sized: "pricerdata_sized md pd"
    and r: "r \<in> set conss" "arcActive r" "arctype r = ENFORCE"
           "tail r < nC md" "head r < nC md"
  shows "(\<not> isDepot (nC md) (tail r) \<and> \<not> isDepot (nC md) (head r) \<longrightarrow>
            successor ! tail r = int (head r) \<and> predecessor ! head r = int (tail r)
            \<and> (\<forall>j<nC md. j \<noteq> head r \<longrightarrow> isForbidden pd' ! tail r ! j)
            \<and> (\<forall>j<nC md. j \<noteq> tail r \<longrightarrow> isForbidden pd' ! j ! head r)
            \<and> \<not> toDepot pd' ! tail r)
       \<and> (isDepot (nC md) (head r) \<longrightarrow>
            (\<forall>j<nC md. \<not> isDepot (nC md) j \<longrightarrow> isForbidden pd' ! tail r ! j)
            \<and> (conss = [r] \<longrightarrow>
                 (\<forall>a<nC md. \<forall>b<nC md.
                     isForbidden pd' ! a ! b \<longleftrightarrow> (a = tail r \<and> \<not> isDepot (nC md) b))))
       \<and> (isDepot (nC md) (tail r) \<and> \<not> isDepot (nC md) (head r) \<longrightarrow>
            (\<forall>j<nC md. \<not> isDepot (nC md) j \<longrightarrow> isForbidden pd' ! j ! head r)
            \<and> (conss = [r] \<longrightarrow>
                 (\<forall>a<nC md. \<forall>b<nC md.
                     isForbidden pd' ! a ! b \<longleftrightarrow> (b = head r \<and> \<not> isDepot (nC md) a))))"
proof -
  let ?n = "nC md"
  from sized have shape: "rect ?n ?n (isForbidden pd)" and td: "length (toDepot pd) = ?n - 1"
    by (simp_all add: pricerdata_sized_def)
  note spec = setArcMatrix_spec[OF run shape td]
  have forb: "\<And>a b. a < ?n \<Longrightarrow> b < ?n \<Longrightarrow>
      isForbidden pd' ! a ! b = (\<exists>r\<in>set conss. inducesForbidden ?n r a b)"
    by (rule spec(5))
  have ind: "\<And>a b. inducesForbidden ?n r a b \<Longrightarrow> a < ?n \<Longrightarrow> b < ?n \<Longrightarrow> isForbidden pd' ! a ! b"
    using forb r(1) by blast
  have A: "successor ! tail r = int (head r) \<and> predecessor ! head r = int (tail r)
            \<and> (\<forall>j<?n. j \<noteq> head r \<longrightarrow> isForbidden pd' ! tail r ! j)
            \<and> (\<forall>j<?n. j \<noteq> tail r \<longrightarrow> isForbidden pd' ! j ! head r)
            \<and> \<not> toDepot pd' ! tail r"
    if nd: "\<not> isDepot ?n (tail r)" "\<not> isDepot ?n (head r)"
  proof -
    from run have run0: "setArcMatrix_conss ?n conss (setArcMatrix_init ?n pd)
        = Inr (pd', successor, predecessor)"
      by (simp add: setArcMatrix_def)
    obtain pd0 where init: "setArcMatrix_init ?n pd = (pd0, replicate ?n (- 1), replicate ?n (- 1))"
      using setArcMatrix_init_spec(5)[OF shape] by (cases "setArcMatrix_init ?n pd") simp
    from conss_enforced_recorded[OF run0[unfolded init] r(1-3) nd] r(4,5)
    have sp: "successor ! tail r = int (head r) \<and> predecessor ! head r = int (tail r)"
      by simp
    have f1: "\<forall>j<?n. j \<noteq> head r \<longrightarrow> isForbidden pd' ! tail r ! j"
      using ind r nd by (simp add: inducesForbidden_def)
    have f2: "\<forall>j<?n. j \<noteq> tail r \<longrightarrow> isForbidden pd' ! j ! head r"
      using ind r nd by (simp add: inducesForbidden_def)
    have "tail r < ?n - 1" using r(4) nd(1) by (auto simp: isDepot_def)
    moreover have "clearsToDepot ?n r (tail r)" using r nd by (simp add: clearsToDepot_def)
    ultimately have "\<not> toDepot pd' ! tail r" using spec(6)[of "tail r"] r(1) by blast
    with sp f1 f2 show ?thesis by simp
  qed
  have B: "(\<forall>j<?n. \<not> isDepot ?n j \<longrightarrow> isForbidden pd' ! tail r ! j)
            \<and> (conss = [r] \<longrightarrow>
                 (\<forall>a<?n. \<forall>b<?n. isForbidden pd' ! a ! b \<longleftrightarrow> (a = tail r \<and> \<not> isDepot ?n b)))"
    if hd: "isDepot ?n (head r)"
  proof -
    have "\<forall>j<?n. \<not> isDepot ?n j \<longrightarrow> isForbidden pd' ! tail r ! j"
      using ind r hd by (simp add: inducesForbidden_def)
    moreover have "\<forall>a<?n. \<forall>b<?n. isForbidden pd' ! a ! b \<longleftrightarrow> (a = tail r \<and> \<not> isDepot ?n b)"
      if "conss = [r]"
      using forb that r hd by (simp add: inducesForbidden_def)
    ultimately show ?thesis by blast
  qed
  have C: "(\<forall>j<?n. \<not> isDepot ?n j \<longrightarrow> isForbidden pd' ! j ! head r)
            \<and> (conss = [r] \<longrightarrow>
                 (\<forall>a<?n. \<forall>b<?n. isForbidden pd' ! a ! b \<longleftrightarrow> (b = head r \<and> \<not> isDepot ?n a)))"
    if tl: "isDepot ?n (tail r)" "\<not> isDepot ?n (head r)"
  proof -
    have "\<forall>j<?n. \<not> isDepot ?n j \<longrightarrow> isForbidden pd' ! j ! head r"
      using ind r tl by (simp add: inducesForbidden_def)
    moreover have "\<forall>a<?n. \<forall>b<?n. isForbidden pd' ! a ! b \<longleftrightarrow> (b = head r \<and> \<not> isDepot ?n a)"
      if "conss = [r]"
      using forb that r tl by (simp add: inducesForbidden_def)
    ultimately show ?thesis by blast
  qed
  from A B C show ?thesis by blast
qed

theorem setArcMatrix_enforced_arc_witness:
  "(\<exists>pd' successor predecessor.
      setArcMatrix
        \<lparr>nC = 11, nDays = 1, timeWindows = replicate 11 [0], modelNeighbors = replicate 11 [[]]\<rparr>
        [\<lparr>arcActive = True, tail = 5, head = 9, arctype = ENFORCE\<rparr>]
        (projr (SCIPpricerVrpActivate
           \<lparr>nC = 11, nDays = 1, timeWindows = replicate 11 [0],
            modelNeighbors = replicate 11 [[]]\<rparr>))
        = Inr (pd', successor, predecessor)
      \<and> successor ! 5 = 9 \<and> predecessor ! 9 = 5
      \<and> isForbidden pd' ! 5 ! 10 \<and> isForbidden pd' ! 5 ! 0
      \<and> isForbidden pd' ! 10 ! 9 \<and> isForbidden pd' ! 0 ! 9
      \<and> \<not> toDepot pd' ! 5)
   \<and> (\<exists>pd' successor predecessor.
      setArcMatrix
        \<lparr>nC = 3, nDays = 1, timeWindows = replicate 3 [0], modelNeighbors = replicate 3 [[]]\<rparr>
        [\<lparr>arcActive = True, tail = 1, head = 2, arctype = ENFORCE\<rparr>]
        (projr (SCIPpricerVrpActivate
           \<lparr>nC = 3, nDays = 1, timeWindows = replicate 3 [0], modelNeighbors = replicate 3 [[]]\<rparr>))
        = Inr (pd', successor, predecessor)
      \<and> isForbidden pd' = [[False, False, False], [True, True, False], [False, False, False]])
   \<and> (\<exists>pd' successor predecessor.
      setArcMatrix
        \<lparr>nC = 3, nDays = 1, timeWindows = replicate 3 [0], modelNeighbors = replicate 3 [[]]\<rparr>
        [\<lparr>arcActive = True, tail = 2, head = 0, arctype = ENFORCE\<rparr>]
        (projr (SCIPpricerVrpActivate
           \<lparr>nC = 3, nDays = 1, timeWindows = replicate 3 [0], modelNeighbors = replicate 3 [[]]\<rparr>))
        = Inr (pd', successor, predecessor)
      \<and> isForbidden pd' = [[True, False, False], [True, False, False], [False, False, False]])"
proof (intro conjI)
  let ?md = "\<lparr>nC = 11, nDays = 1, timeWindows = replicate 11 [0],
              modelNeighbors = replicate 11 [[]]\<rparr>"
  let ?r = "\<lparr>arcActive = True, tail = 5, head = 9, arctype = ENFORCE\<rparr>"
  have "isOK (setArcMatrix ?md [?r] (projr (SCIPpricerVrpActivate ?md)))"
    by code_simp
  then obtain pd' s p
    where run: "setArcMatrix ?md [?r] (projr (SCIPpricerVrpActivate ?md)) = Inr (pd', s, p)"
    by (auto dest!: isOK_obtain)
  have sized: "pricerdata_sized ?md (projr (SCIPpricerVrpActivate ?md))"
    by code_simp
  have nd: "\<not> isDepot (nC ?md) (tail ?r)" "\<not> isDepot (nC ?md) (head ?r)"
    by (simp_all add: isDepot_def)
  from setArcMatrix_enforced_arc[OF run sized, of ?r] nd
  have "s ! 5 = 9 \<and> p ! 9 = 5
      \<and> isForbidden pd' ! 5 ! 10 \<and> isForbidden pd' ! 5 ! 0
      \<and> isForbidden pd' ! 10 ! 9 \<and> isForbidden pd' ! 0 ! 9
      \<and> \<not> toDepot pd' ! 5"
    by simp
  with run show "\<exists>pd' successor predecessor.
      setArcMatrix ?md [?r] (projr (SCIPpricerVrpActivate ?md)) = Inr (pd', successor, predecessor)
      \<and> successor ! 5 = 9 \<and> predecessor ! 9 = 5
      \<and> isForbidden pd' ! 5 ! 10 \<and> isForbidden pd' ! 5 ! 0
      \<and> isForbidden pd' ! 10 ! 9 \<and> isForbidden pd' ! 0 ! 9
      \<and> \<not> toDepot pd' ! 5"
    by blast
next
  let ?md = "\<lparr>nC = 3, nDays = 1, timeWindows = replicate 3 [0],
              modelNeighbors = replicate 3 [[]]\<rparr>"
  let ?r = "\<lparr>arcActive = True, tail = 1, head = 2, arctype = ENFORCE\<rparr>"
  have "isOK (setArcMatrix ?md [?r] (projr (SCIPpricerVrpActivate ?md)))"
    by code_simp
  then obtain pd' s p
    where run: "setArcMatrix ?md [?r] (projr (SCIPpricerVrpActivate ?md)) = Inr (pd', s, p)"
    by (auto dest!: isOK_obtain)
  have sized: "pricerdata_sized ?md (projr (SCIPpricerVrpActivate ?md))"
    by code_simp
  have hd: "isDepot (nC ?md) (head ?r)"
    by (simp add: isDepot_def)
  have shape: "rect 3 3 (isForbidden pd')"
    using setArcMatrix_spec(1)[OF run] sized by (simp add: pricerdata_sized_def)
  from setArcMatrix_enforced_arc[OF run sized, of ?r] hd
  have "\<forall>a<3. \<forall>b<3. isForbidden pd' ! a ! b \<longleftrightarrow> (a = 1 \<and> b \<noteq> 2)"
    by (simp add: isDepot_def)
  with shape have "isForbidden pd' = [[False, False, False], [True, True, False], [False, False, False]]"
    by (simp add: rect_iff list_eq_iff_nth_eq nth_Cons' less_Suc_eq numeral_3_eq_3 all_conj_distrib)
  with run show "\<exists>pd' successor predecessor.
      setArcMatrix ?md [?r] (projr (SCIPpricerVrpActivate ?md)) = Inr (pd', successor, predecessor)
      \<and> isForbidden pd' = [[False, False, False], [True, True, False], [False, False, False]]"
    by blast
next
  let ?md = "\<lparr>nC = 3, nDays = 1, timeWindows = replicate 3 [0],
              modelNeighbors = replicate 3 [[]]\<rparr>"
  let ?r = "\<lparr>arcActive = True, tail = 2, head = 0, arctype = ENFORCE\<rparr>"
  have "isOK (setArcMatrix ?md [?r] (projr (SCIPpricerVrpActivate ?md)))"
    by code_simp
  then obtain pd' s p
    where run: "setArcMatrix ?md [?r] (projr (SCIPpricerVrpActivate ?md)) = Inr (pd', s, p)"
    by (auto dest!: isOK_obtain)
  have sized: "pricerdata_sized ?md (projr (SCIPpricerVrpActivate ?md))"
    by code_simp
  have tl: "isDepot (nC ?md) (tail ?r)" "\<not> isDepot (nC ?md) (head ?r)"
    by (simp_all add: isDepot_def)
  have shape: "rect 3 3 (isForbidden pd')"
    using setArcMatrix_spec(1)[OF run] sized by (simp add: pricerdata_sized_def)
  from setArcMatrix_enforced_arc[OF run sized, of ?r] tl
  have "\<forall>a<3. \<forall>b<3. isForbidden pd' ! a ! b \<longleftrightarrow> (b = 0 \<and> a \<noteq> 2)"
    by (simp add: isDepot_def)
  with shape have "isForbidden pd' = [[True, False, False], [True, False, False], [False, False, False]]"
    by (simp add: rect_iff list_eq_iff_nth_eq nth_Cons' less_Suc_eq numeral_3_eq_3 all_conj_distrib)
  with run show "\<exists>pd' successor predecessor.
      setArcMatrix ?md [?r] (projr (SCIPpricerVrpActivate ?md)) = Inr (pd', successor, predecessor)
      \<and> isForbidden pd' = [[True, False, False], [True, False, False], [False, False, False]]"
    by blast
qed

text \<open>
  Claim C10. After every rebuild of the arc matrix that completes, for every non-depot
  customer \<open>c\<close>: if the arc from \<open>c\<close> to the depot is forbidden then \<open>toDepot[c]\<close> is
  false.
\<close>

theorem forbidden_depot_arc_clears_toDepot:
  assumes run: "setArcMatrix md conss pd = Inr (pd', successor, predecessor)"
    and sized: "pricerdata_sized md pd"
  shows "\<forall>c < nC md - 1. isForbidden pd' ! c ! (nC md - 1) \<longrightarrow> \<not> toDepot pd' ! c"
proof (intro allI impI)
  fix c assume c: "c < nC md - 1" and f: "isForbidden pd' ! c ! (nC md - 1)"
  from sized have shape: "rect (nC md) (nC md) (isForbidden pd)"
    and td: "length (toDepot pd) = nC md - 1"
    by (simp_all add: pricerdata_sized_def)
  note spec = setArcMatrix_spec[OF run shape td]
  from c have "c < nC md" "nC md - 1 < nC md" by simp_all
  with spec(5)[of c "nC md - 1"] f
  obtain r where r: "r \<in> set conss" "inducesForbidden (nC md) r c (nC md - 1)" by blast
  from induced_into_depot_clears[OF r(2) c] r(1) spec(6)[OF c]
  show "\<not> toDepot pd' ! c" by blast
qed

theorem forbidden_depot_arc_clears_toDepot_witness:
  "\<exists>pd' successor predecessor.
      setArcMatrix
        \<lparr>nC = 3, nDays = 1, timeWindows = replicate 3 [0], modelNeighbors = replicate 3 [[]]\<rparr>
        [\<lparr>arcActive = True, tail = 0, head = 2, arctype = PROHIBIT\<rparr>]
        (projr (SCIPpricerVrpActivate
           \<lparr>nC = 3, nDays = 1, timeWindows = replicate 3 [0], modelNeighbors = replicate 3 [[]]\<rparr>))
        = Inr (pd', successor, predecessor)
      \<and> isForbidden pd' ! 0 ! 2 \<and> \<not> toDepot pd' ! 0 \<and> toDepot pd' ! 1"
proof -
  let ?md = "\<lparr>nC = 3, nDays = 1, timeWindows = replicate 3 [0],
              modelNeighbors = replicate 3 [[]]\<rparr>"
  let ?r = "\<lparr>arcActive = True, tail = 0, head = 2, arctype = PROHIBIT\<rparr>"
  have ev: "(case setArcMatrix ?md [?r] (projr (SCIPpricerVrpActivate ?md)) of
              Inl e \<Rightarrow> False
            | Inr st \<Rightarrow> isForbidden (fst st) ! 0 ! 2 \<and> toDepot (fst st) ! 1)"
    by code_simp
  then obtain pd' s p
    where run: "setArcMatrix ?md [?r] (projr (SCIPpricerVrpActivate ?md)) = Inr (pd', s, p)"
    by (auto split: sum.splits)
  from ev run have f: "isForbidden pd' ! 0 ! 2" "toDepot pd' ! 1" by simp_all
  have sized: "pricerdata_sized ?md (projr (SCIPpricerVrpActivate ?md))"
    by code_simp
  from forbidden_depot_arc_clears_toDepot[OF run sized] f(1)
  have "\<not> toDepot pd' ! 0" by simp
  with run f show ?thesis by blast
qed

subsection \<open>The classifier and the fixing rule\<close>

text \<open>
  Claim C1 (as amended). During the propagation of a record, for every column that the
  scan reaches: the classifier returns 2 if the column visits the customer and runs on
  the record's day, 1 if exactly one of the two holds (it visits the customer on another
  day, or runs that day without the customer), and 0 if neither holds; the column is
  fixed to zero (its upper bound set to 0) exactly when its upper bound is at least 0.5,
  its lower bound does not force it to one, and its status is 2 under a PROHIBIT record
  or 1 under an ENFORCE record; every other column reached is left untouched; and a
  column reached with upper bound at least 0.5 and such a status whose lower bound forces
  it to one makes the propagation report CUTOFF.
\<close>

theorem propagation_fixes_by_status:
  assumes run: "consdataFixVariables consdata vars (length vars) result = (vars', result')"
    and v: "v < length vars"
    and reached: "scanned consdata vars (npropagatedvars consdata) v"
  shows "customerAndDayInVar (vars ! v) (customer consdata) (day consdata) =
           (if customer consdata \<in> set (customertour (vars ! v))
            then (if tourday (vars ! v) = day consdata then 2 else 1)
            else (if tourday (vars ! v) = day consdata then 1 else 0))
       \<and> vars' ! v =
           (if ubLocal (vars ! v) \<ge> 0.5 \<and> \<not> lbLocal (vars ! v) > 0.5
               \<and> ((ctype consdata = VA_PROHIBIT
                     \<and> customerAndDayInVar (vars ! v) (customer consdata) (day consdata) = 2)
                  \<or> (ctype consdata = VA_ENFORCE
                     \<and> customerAndDayInVar (vars ! v) (customer consdata) (day consdata) = 1))
            then (vars ! v)\<lparr>ubLocal := 0\<rparr>
            else vars ! v)
       \<and> (ubLocal (vars ! v) \<ge> 0.5 \<and> lbLocal (vars ! v) > 0.5
               \<and> ((ctype consdata = VA_PROHIBIT
                     \<and> customerAndDayInVar (vars ! v) (customer consdata) (day consdata) = 2)
                  \<or> (ctype consdata = VA_ENFORCE
                     \<and> customerAndDayInVar (vars ! v) (customer consdata) (day consdata) = 1))
            \<longrightarrow> result' = SCIP_CUTOFF)"
proof -
  obtain nf co where loop:
    "consdataFixVariables_loop consdata vars (length vars) (npropagatedvars consdata) 0 False
       = (vars', nf, co)"
    and res: "result' = (if co then SCIP_CUTOFF else if nf > 0 then SCIP_REDUCEDDOM else result)"
    using run by (auto simp: consdataFixVariables_def split: prod.splits)
  note sp = fix_loop_spec[OF le_refl loop]
  from sp v reached
  have A: "vars' ! v = (if fixable consdata (vars ! v) then (vars ! v)\<lparr>ubLocal := 0\<rparr> else vars ! v)"
    by simp
  from reached have "npropagatedvars consdata \<le> v" by (simp add: scanned_def)
  with sp v have "contradicts consdata (vars ! v) \<Longrightarrow> co" by blast
  with res have B: "contradicts consdata (vars ! v) \<longrightarrow> result' = SCIP_CUTOFF" by simp
  from A B show ?thesis
    by (simp add: fixable_def contradicts_def violatesRecord_def customerAndDayInVar_def tourScan_eq)
qed

theorem propagation_fixes_by_status_witness:
  "consdataFixVariables
      \<lparr>customer = 3, day = 2, ctype = VA_ENFORCE, npropagatedvars = 0, npropagations = 0,
       propagated = False\<rparr>
      [\<lparr>customertour = [3], tourday = 1, lbLocal = 0, ubLocal = 1\<rparr>,
       \<lparr>customertour = [5], tourday = 2, lbLocal = 0, ubLocal = 1\<rparr>,
       \<lparr>customertour = [4, 3], tourday = 2, lbLocal = 0, ubLocal = 1\<rparr>] 3 SCIP_DIDNOTFIND
     = ([\<lparr>customertour = [3], tourday = 1, lbLocal = 0, ubLocal = 0\<rparr>,
         \<lparr>customertour = [5], tourday = 2, lbLocal = 0, ubLocal = 0\<rparr>,
         \<lparr>customertour = [4, 3], tourday = 2, lbLocal = 0, ubLocal = 1\<rparr>], SCIP_REDUCEDDOM)
   \<and> customerAndDayInVar \<lparr>customertour = [5], tourday = 2, lbLocal = 0, ubLocal = 1\<rparr> 3 2 = 1
   \<and> (\<exists>vars'. consdataFixVariables
      \<lparr>customer = 3, day = 2, ctype = VA_ENFORCE, npropagatedvars = 0, npropagations = 0,
       propagated = False\<rparr>
      [\<lparr>customertour = [3], tourday = 1, lbLocal = 0, ubLocal = 1\<rparr>,
       \<lparr>customertour = [3], tourday = 0, lbLocal = 1, ubLocal = 1\<rparr>,
       \<lparr>customertour = [5], tourday = 2, lbLocal = 0, ubLocal = 1\<rparr>] 3 SCIP_DIDNOTFIND
     = (vars', SCIP_CUTOFF)
     \<and> vars' ! 1 = \<lparr>customertour = [3], tourday = 0, lbLocal = 1, ubLocal = 1\<rparr>)"
proof -
  let ?c = "\<lparr>customer = 3, day = 2, ctype = VA_ENFORCE, npropagatedvars = 0,
             npropagations = 0, propagated = False\<rparr>"
  let ?vs = "[\<lparr>customertour = [3], tourday = 1, lbLocal = 0, ubLocal = 1\<rparr>,
       \<lparr>customertour = [5], tourday = 2, lbLocal = 0, ubLocal = 1\<rparr>,
       \<lparr>customertour = [4, 3], tourday = 2, lbLocal = 0, ubLocal = (1::real)\<rparr>]"
  let ?ws = "[\<lparr>customertour = [3], tourday = 1, lbLocal = 0, ubLocal = 1\<rparr>,
       \<lparr>customertour = [3], tourday = 0, lbLocal = 1, ubLocal = 1\<rparr>,
       \<lparr>customertour = [5], tourday = 2, lbLocal = 0, ubLocal = (1::real)\<rparr>]"
  have run: "consdataFixVariables ?c ?vs (length ?vs) SCIP_DIDNOTFIND
     = ([\<lparr>customertour = [3], tourday = 1, lbLocal = 0, ubLocal = 0\<rparr>,
         \<lparr>customertour = [5], tourday = 2, lbLocal = 0, ubLocal = 0\<rparr>,
         \<lparr>customertour = [4, 3], tourday = 2, lbLocal = 0, ubLocal = 1\<rparr>], SCIP_REDUCEDDOM)"
    by code_simp
  have reached: "scanned ?c ?vs (npropagatedvars ?c) 1"
    by code_simp
  have v: "1 < length ?vs"
    by simp
  have run3: "consdataFixVariables ?c ?vs 3 SCIP_DIDNOTFIND
     = ([\<lparr>customertour = [3], tourday = 1, lbLocal = 0, ubLocal = 0\<rparr>,
         \<lparr>customertour = [5], tourday = 2, lbLocal = 0, ubLocal = 0\<rparr>,
         \<lparr>customertour = [4, 3], tourday = 2, lbLocal = 0, ubLocal = 1\<rparr>], SCIP_REDUCEDDOM)"
    by code_simp
  have A: "customerAndDayInVar \<lparr>customertour = [5], tourday = 2, lbLocal = 0, ubLocal = 1\<rparr> 3 2 = 1"
    using propagation_fixes_by_status[OF run v reached] by simp
  obtain vars' result' where cut3: "consdataFixVariables ?c ?ws 3 SCIP_DIDNOTFIND
      = (vars', result')"
    by (cases "consdataFixVariables ?c ?ws 3 SCIP_DIDNOTFIND")
  have len: "length ?ws = 3" by simp
  have cut: "consdataFixVariables ?c ?ws (length ?ws) SCIP_DIDNOTFIND = (vars', result')"
    unfolding len by (rule cut3)
  have reached': "scanned ?c ?ws (npropagatedvars ?c) 1"
    by code_simp
  have w: "1 < length ?ws"
    by simp
  note T = propagation_fixes_by_status[OF cut w reached']
  from T have B: "vars' ! 1 = \<lparr>customertour = [3], tourday = 0, lbLocal = 1, ubLocal = 1\<rparr>"
    and C: "result' = SCIP_CUTOFF"
    by simp_all
  from cut3 C have "consdataFixVariables ?c ?ws 3 SCIP_DIDNOTFIND = (vars', SCIP_CUTOFF)"
    by (simp only:)
  with B have "\<exists>vars'. consdataFixVariables ?c ?ws 3 SCIP_DIDNOTFIND = (vars', SCIP_CUTOFF)
     \<and> vars' ! 1 = \<lparr>customertour = [3], tourday = 0, lbLocal = 1, ubLocal = 1\<rparr>"
    by blast
  with run3 A show ?thesis by blast
qed

theorem classifier_differs_from_specified_hit:
  "customerAndDayInVar \<lparr>customertour = [5], tourday = 2, lbLocal = 0, ubLocal = 1\<rparr> 3 2 = 1
   \<and> hit_as_specified \<lparr>customertour = [5], tourday = 2, lbLocal = 0, ubLocal = 1\<rparr> 3 2 = 0
   \<and> checkVariable
        \<lparr>customer = 3, day = 2, ctype = VA_ENFORCE, npropagatedvars = 0, npropagations = 0,
         propagated = False\<rparr>
        \<lparr>customertour = [5], tourday = 2, lbLocal = 0, ubLocal = 1\<rparr> 0 False
      = (\<lparr>customertour = [5], tourday = 2, lbLocal = 0, ubLocal = 0\<rparr>, 1, False)"
  by (intro conjI; code_simp)

subsection \<open>The consistency check\<close>

text \<open>
  Claim C8. The consistency check is claimed to return true only if no feasible column
  violates the record. Evaluated on two feasible columns, the first of status 0 and the
  second violating a PROHIBIT record, \<open>consdataCheck\<close> (with \<open>beforeprop = FALSE\<close>)
  returns true: the exit \<open>return SCIP_OKAY\<close> at the first column ends the loop before
  the second column is examined.
\<close>

theorem consdataCheck_stops_at_status_zero:
  "consdataCheck
      [\<lparr>customertour = [5], tourday = 0, lbLocal = 0, ubLocal = 1\<rparr>,
       \<lparr>customertour = [3], tourday = 2, lbLocal = 0, ubLocal = 1\<rparr>]
      \<lparr>customer = 3, day = 2, ctype = VA_PROHIBIT, npropagatedvars = 2, npropagations = 1,
       propagated = True\<rparr> False = Inr True
   \<and> ubLocal \<lparr>customertour = [3], tourday = 2, lbLocal = 0, ubLocal = 1\<rparr> \<ge> 0.5
   \<and> violatesRecord
        \<lparr>customer = 3, day = 2, ctype = VA_PROHIBIT, npropagatedvars = 2, npropagations = 1,
         propagated = True\<rparr>
        \<lparr>customertour = [3], tourday = 2, lbLocal = 0, ubLocal = 1\<rparr>"
  by (intro conjI; code_simp)

subsection \<open>The timetable\<close>

lemma foldE_Inr_Cons:
  "foldE f (x # xs) st = Inr st' \<longleftrightarrow> (\<exists>st1. f x st = Inr st1 \<and> foldE f xs st1 = Inr st')"
  by (auto split: sum.splits)

lemma reset_row:
  "same_shape (fold (\<lambda>w tt. array2_set tt c w True) ws
                 (fold (\<lambda>d tt. array2_set tt c d False) ds m)) m
   \<and> (\<forall>a<length m. \<forall>b<length (m ! a).
         fold (\<lambda>w tt. array2_set tt c w True) ws
           (fold (\<lambda>d tt. array2_set tt c d False) ds m) ! a ! b
         = (if a = c then (if b \<in> set ws then True else if b \<in> set ds then False else m ! a ! b)
            else m ! a ! b))"
proof -
  define m1 where "m1 = fold (\<lambda>d tt. array2_set tt c d False) ds m"
  have s1: "same_shape m1 m"
    and v1: "\<forall>a<length m. \<forall>b<length (m ! a). m1 ! a ! b
               = (if a = c \<and> b \<in> set ds then False else m ! a ! b)"
    using fold_row_set[of c False ds m] unfolding m1_def by blast+
  have s2: "same_shape (fold (\<lambda>w tt. array2_set tt c w True) ws m1) m1"
    and v2: "\<forall>a<length m1. \<forall>b<length (m1 ! a). fold (\<lambda>w tt. array2_set tt c w True) ws m1 ! a ! b
               = (if a = c \<and> b \<in> set ws then True else m1 ! a ! b)"
    using fold_row_set[of c True ws m1] by blast+
  have sh: "same_shape (fold (\<lambda>w tt. array2_set tt c w True) ws m1) m"
    using s2 s1 by (rule same_shape_trans)
  have "\<forall>a<length m. \<forall>b<length (m ! a).
         fold (\<lambda>w tt. array2_set tt c w True) ws m1 ! a ! b
         = (if a = c then (if b \<in> set ws then True else if b \<in> set ds then False else m ! a ! b)
            else m ! a ! b)"
  proof (intro allI impI)
    fix a b assume ab: "a < length m" "b < length (m ! a)"
    with s1 have ab1: "a < length m1" "b < length (m1 ! a)" by (simp_all add: same_shape_def)
    from v2 ab1 have "fold (\<lambda>w tt. array2_set tt c w True) ws m1 ! a ! b
               = (if a = c \<and> b \<in> set ws then True else m1 ! a ! b)" by blast
    also have "m1 ! a ! b = (if a = c \<and> b \<in> set ds then False else m ! a ! b)"
      using v1 ab by blast
    finally show "fold (\<lambda>w tt. array2_set tt c w True) ws m1 ! a ! b
         = (if a = c then (if b \<in> set ws then True else if b \<in> set ds then False else m ! a ! b)
            else m ! a ! b)"
      by auto
  qed
  with sh show ?thesis unfolding m1_def by blast
qed

lemma reset_rows:
  "same_shape (fold (\<lambda>cust tt. fold (\<lambda>w tt. array2_set tt cust w True) (tws ! cust)
                 (fold (\<lambda>d tt. array2_set tt cust d False) ds tt)) cs m) m
   \<and> (\<forall>a<length m. \<forall>b<length (m ! a).
         fold (\<lambda>cust tt. fold (\<lambda>w tt. array2_set tt cust w True) (tws ! cust)
                 (fold (\<lambda>d tt. array2_set tt cust d False) ds tt)) cs m ! a ! b
         = (if a \<in> set cs
            then (if b \<in> set (tws ! a) then True else if b \<in> set ds then False else m ! a ! b)
            else m ! a ! b))"
proof (induction cs arbitrary: m)
  case Nil
  then show ?case by (simp add: same_shape_refl)
next
  case (Cons c cs)
  define m1 where "m1 = fold (\<lambda>w tt. array2_set tt c w True) (tws ! c)
                 (fold (\<lambda>d tt. array2_set tt c d False) ds m)"
  have s1: "same_shape m1 m"
    and v1: "\<forall>a<length m. \<forall>b<length (m ! a). m1 ! a ! b
         = (if a = c then (if b \<in> set (tws ! c) then True else if b \<in> set ds then False else m ! a ! b)
            else m ! a ! b)"
    using reset_row[of c "tws ! c" ds m] unfolding m1_def by blast+
  note IH = Cons.IH[of m1]
  let ?F = "fold (\<lambda>cust tt. fold (\<lambda>w tt. array2_set tt cust w True) (tws ! cust)
                 (fold (\<lambda>d tt. array2_set tt cust d False) ds tt))"
  have f: "?F (c # cs) m = ?F cs m1" by (simp add: m1_def)
  show ?case unfolding f
  proof (intro conjI allI impI)
    show "same_shape (?F cs m1) m" using IH s1 by (blast intro: same_shape_trans)
  next
    fix a b assume ab: "a < length m" "b < length (m ! a)"
    with s1 have ab1: "a < length m1" "b < length (m1 ! a)" by (simp_all add: same_shape_def)
    from IH ab1 have "?F cs m1 ! a ! b = (if a \<in> set cs
            then (if b \<in> set (tws ! a) then True else if b \<in> set ds then False else m1 ! a ! b)
            else m1 ! a ! b)" by blast
    also have "m1 ! a ! b
         = (if a = c then (if b \<in> set (tws ! c) then True else if b \<in> set ds then False else m ! a ! b)
            else m ! a ! b)" using v1 ab by blast
    finally show "?F cs m1 ! a ! b = (if a \<in> set (c # cs)
            then (if b \<in> set (tws ! a) then True else if b \<in> set ds then False else m ! a ! b)
            else m ! a ! b)" by auto
  qed
qed

lemma setTimeTable_reset_spec:
  assumes "rect (nC md) (nDays md) tt"
  shows "rect (nC md) (nDays md) (setTimeTable_reset md tt)"
    and "c < nC md \<Longrightarrow> d < nDays md
           \<Longrightarrow> setTimeTable_reset md tt ! c ! d = (d \<in> set (timeWindows md ! c))"
  using reset_rows[of "timeWindows md" "[0 ..< nDays md]" "[0 ..< nC md]" tt] assms
  by (auto simp: setTimeTable_reset_def rect_iff same_shape_def)

lemma setTimeTable_step_cases:
  assumes "setTimeTable_step md r tt = Inr tt'"
  obtains (inactive) "\<not> vaActive r" "tt' = tt"
  | (prohibit) "vaActive r" "Suc (customer (vaData r)) < nC md" "ctype (vaData r) = VA_PROHIBIT"
      "tt ! customer (vaData r) ! day (vaData r)"
      "tt' = array2_set tt (customer (vaData r)) (day (vaData r)) False"
  | (enforce) "vaActive r" "Suc (customer (vaData r)) < nC md" "ctype (vaData r) = VA_ENFORCE"
      "tt ! customer (vaData r) ! day (vaData r)"
      "tt' = array2_set
               (fold (\<lambda>w tt. array2_set tt (customer (vaData r)) w False)
                  (timeWindows md ! customer (vaData r)) tt)
               (customer (vaData r)) (day (vaData r)) True"
proof (cases "vaActive r")
  case False
  with assms that(1) show ?thesis by (simp add: setTimeTable_step_def)
next
  case act: True
  show ?thesis
  proof (cases "ctype (vaData r)")
    case VA_PROHIBIT
    with assms act that(2) show ?thesis
      by (simp add: setTimeTable_step_def split: if_splits)
  next
    case VA_ENFORCE
    with assms act that(3) show ?thesis
      by (simp add: setTimeTable_step_def split: if_splits)
  next
    case VA_OTHER
    with assms act show ?thesis by (simp add: setTimeTable_step_def split: if_splits)
  qed
qed

lemma enforce_row_rect:
  assumes "rect n nd tt"
  shows "rect n nd (array2_set (fold (\<lambda>w tt. array2_set tt c w False) ws tt) c d True)"
proof -
  have "same_shape (fold (\<lambda>w tt. array2_set tt c w False) ws tt) tt"
    using fold_row_set[of c False ws tt] by blast
  from this assms have "rect n nd (fold (\<lambda>w tt. array2_set tt c w False) ws tt)"
    by (rule same_shape_rect)
  then show ?thesis by (rule same_shape_rect[OF same_shape_set])
qed

lemma enforce_row_update:
  assumes "rect n nd tt" "a < n" "b < nd"
  shows "array2_set (fold (\<lambda>w tt. array2_set tt c w False) ws tt) c d True ! a ! b
           = (if a = c then (b = d \<or> (tt ! a ! b \<and> b \<notin> set ws)) else tt ! a ! b)"
proof -
  define m1 where "m1 = fold (\<lambda>w tt. array2_set tt c w False) ws tt"
  have s1: "same_shape m1 tt"
    and v1: "\<forall>a<length tt. \<forall>b<length (tt ! a). m1 ! a ! b
               = (if a = c \<and> b \<in> set ws then False else tt ! a ! b)"
    using fold_row_set[of c False ws tt] unfolding m1_def by blast+
  from s1 assms(1) have r1: "rect n nd m1" by (rule same_shape_rect)
  have "array2_set m1 c d True ! a ! b = (if a = c \<and> b = d then True else m1 ! a ! b)"
    using r1 assms(2,3) by (simp add: rect_iff array2_set_nth)
  also have "m1 ! a ! b = (if a = c \<and> b \<in> set ws then False else tt ! a ! b)"
    using v1 assms by (simp add: rect_iff)
  finally show "array2_set (fold (\<lambda>w tt. array2_set tt c w False) ws tt) c d True ! a ! b
           = (if a = c then (b = d \<or> (tt ! a ! b \<and> b \<notin> set ws)) else tt ! a ! b)"
    unfolding m1_def by auto
qed

lemma setTimeTable_step_spec:
  assumes run: "setTimeTable_step md r tt = Inr tt'"
    and shape: "rect (nC md) (nDays md) tt"
  shows "rect (nC md) (nDays md) tt'"
    and "a < nC md \<Longrightarrow> b < nDays md \<Longrightarrow>
           tt' ! a ! b =
             (if vaActive r \<and> a = customer (vaData r) then
                (if ctype (vaData r) = VA_PROHIBIT then tt ! a ! b \<and> b \<noteq> day (vaData r)
                 else b = day (vaData r)
                      \<or> (tt ! a ! b \<and> b \<notin> set (timeWindows md ! customer (vaData r))))
              else tt ! a ! b)"
proof -
  show "rect (nC md) (nDays md) tt'"
    using run
  proof (cases rule: setTimeTable_step_cases)
    case inactive
    then show ?thesis using shape by simp
  next
    case prohibit
    then show ?thesis using same_shape_rect[OF same_shape_set shape] by simp
  next
    case enforce
    then show ?thesis using enforce_row_rect[OF shape] by simp
  qed
  show "tt' ! a ! b =
             (if vaActive r \<and> a = customer (vaData r) then
                (if ctype (vaData r) = VA_PROHIBIT then tt ! a ! b \<and> b \<noteq> day (vaData r)
                 else b = day (vaData r)
                      \<or> (tt ! a ! b \<and> b \<notin> set (timeWindows md ! customer (vaData r))))
              else tt ! a ! b)"
    if ab: "a < nC md" "b < nDays md"
    using run
  proof (cases rule: setTimeTable_step_cases)
    case inactive
    then show ?thesis by simp
  next
    case prohibit
    then show ?thesis using shape ab by (auto simp: rect_iff array2_set_nth)
  next
    case enforce
    then show ?thesis using enforce_row_update[OF shape ab] by simp
  qed
qed

lemma step_within_windows:
  assumes run: "setTimeTable_step md r tt = Inr tt'"
    and shape: "rect (nC md) (nDays md) tt"
    and within: "\<forall>a<nC md. \<forall>b<nDays md. tt ! a ! b \<longrightarrow> b \<in> set (timeWindows md ! a)"
  shows "\<forall>a<nC md. \<forall>b<nDays md. tt' ! a ! b \<longrightarrow> b \<in> set (timeWindows md ! a)"
proof (intro allI impI)
  fix a b assume ab: "a < nC md" "b < nDays md" and t: "tt' ! a ! b"
  note sp = setTimeTable_step_spec(2)[OF run shape ab]
  from run show "b \<in> set (timeWindows md ! a)"
  proof (cases rule: setTimeTable_step_cases)
    case inactive
    with t within ab show ?thesis by simp
  next
    case prohibit
    with t sp within ab show ?thesis by (simp split: if_splits)
  next
    case enforce
    show ?thesis
    proof (cases "a = customer (vaData r) \<and> b = day (vaData r)")
      case True
      with enforce(4) within ab show ?thesis by simp
    next
      case False
      with t sp enforce within ab show ?thesis by (auto split: if_splits)
    qed
  qed
qed

lemma conss_shape_within:
  assumes "foldE (setTimeTable_step md) conss tt = Inr tt'"
    and "rect (nC md) (nDays md) tt"
    and "\<forall>a<nC md. \<forall>b<nDays md. tt ! a ! b \<longrightarrow> b \<in> set (timeWindows md ! a)"
  shows "rect (nC md) (nDays md) tt'
     \<and> (\<forall>a<nC md. \<forall>b<nDays md. tt' ! a ! b \<longrightarrow> b \<in> set (timeWindows md ! a))"
  using assms
proof (induction conss arbitrary: tt)
  case Nil
  then show ?case by simp
next
  case (Cons r conss)
  from Cons.prems(1)[unfolded foldE_Inr_Cons] obtain tt1 where step: "setTimeTable_step md r tt = Inr tt1"
    and rest: "foldE (setTimeTable_step md) conss tt1 = Inr tt'"
    by blast
  from Cons.IH[OF rest setTimeTable_step_spec(1)[OF step Cons.prems(2)]
      step_within_windows[OF step Cons.prems(2,3)]]
  show ?case .
qed

lemma foldE_ConsE:
  assumes "foldE f (x # xs) st = Inr st'"
  obtains st1 where "f x st = Inr st1" and "foldE f xs st1 = Inr st'"
  using assms[unfolded foldE_Inr_Cons] by blast

lemma foldE_snoc:
  "foldE f (xs @ [x]) st = (case foldE f xs st of Inl e \<Rightarrow> Inl e | Inr st' \<Rightarrow> f x st')"
  by (induction xs arbitrary: st) (auto split: sum.splits)

lemma step_cell:
  assumes run: "setTimeTable_step md r tt = Inr tt1"
    and shape: "rect (nC md) (nDays md) tt"
    and within: "\<forall>a<nC md. \<forall>b<nDays md. tt ! a ! b \<longrightarrow> b \<in> set (timeWindows md ! a)"
    and c: "c < nC md" and d: "d < nDays md"
  shows "tt1 ! c ! d \<longleftrightarrow> tt ! c ! d \<and> allowsDay r c d"
proof -
  note sp = setTimeTable_step_spec(2)[OF run shape c d]
  from within c d have w: "tt ! c ! d \<Longrightarrow> d \<in> set (timeWindows md ! c)" by blast
  from run show ?thesis
  proof (cases rule: setTimeTable_step_cases)
    case inactive
    then show ?thesis by (simp add: allowsDay_def)
  next
    case prohibit
    with sp show ?thesis by (auto simp: allowsDay_def)
  next
    case enforce
    show ?thesis
    proof (cases "c = customer (vaData r)")
      case True
      with sp enforce(1,3) have "tt1 ! c ! d \<longleftrightarrow>
          d = day (vaData r) \<or> (tt ! c ! d \<and> d \<notin> set (timeWindows md ! c))"
        by simp
      also have "\<dots> \<longleftrightarrow> d = day (vaData r)" using w by blast
      also have "\<dots> \<longleftrightarrow> tt ! c ! d \<and> d = day (vaData r)" using enforce(4) True by blast
      finally show ?thesis using enforce(1,3) True by (auto simp: allowsDay_def)
    next
      case False
      with sp show ?thesis by (simp add: allowsDay_def)
    qed
  qed
qed

lemma conss_cell:
  "foldE (setTimeTable_step md) conss tt = Inr tt'
    \<Longrightarrow> rect (nC md) (nDays md) tt
    \<Longrightarrow> \<forall>a<nC md. \<forall>b<nDays md. tt ! a ! b \<longrightarrow> b \<in> set (timeWindows md ! a)
    \<Longrightarrow> c < nC md \<Longrightarrow> d < nDays md
    \<Longrightarrow> tt' ! c ! d \<longleftrightarrow> tt ! c ! d \<and> (\<forall>r\<in>set conss. allowsDay r c d)"
proof (induction conss arbitrary: tt)
  case Nil
  then show ?case by simp
next
  case (Cons r conss)
  from Cons.prems(1) obtain tt1 where step: "setTimeTable_step md r tt = Inr tt1"
    and rest: "foldE (setTimeTable_step md) conss tt1 = Inr tt'"
    by (rule foldE_ConsE)
  note r1 = setTimeTable_step_spec(1)[OF step Cons.prems(2)]
  note w1 = step_within_windows[OF step Cons.prems(2,3)]
  have "tt' ! c ! d \<longleftrightarrow> tt1 ! c ! d \<and> (\<forall>r\<in>set conss. allowsDay r c d)"
    by (rule Cons.IH[OF rest r1 w1 Cons.prems(4,5)])
  also have "tt1 ! c ! d \<longleftrightarrow> tt ! c ! d \<and> allowsDay r c d"
    by (rule step_cell[OF step Cons.prems(2,3,4,5)])
  finally show ?case by auto
qed

lemma setTimeTable_snoc:
  "setTimeTable md (conss @ [r]) pd =
     (case setTimeTable md conss pd of
        Inl e \<Rightarrow> Inl e
      | Inr pd1 \<Rightarrow>
          (case setTimeTable_step md r (timetable pd1) of
             Inl e \<Rightarrow> Inl e
           | Inr tt \<Rightarrow> Inr (pd1\<lparr>timetable := tt\<rparr>)))"
  by (simp add: setTimeTable_def foldE_snoc split: sum.splits)

lemma setTimeTable_invariant:
  assumes run: "setTimeTable md conss pd = Inr pd1"
    and shape: "rect (nC md) (nDays md) (timetable pd)"
  shows "rect (nC md) (nDays md) (timetable pd1)"
    and "\<forall>a<nC md. \<forall>b<nDays md. timetable pd1 ! a ! b \<longrightarrow> b \<in> set (timeWindows md ! a)"
    and "c < nC md \<Longrightarrow> d < nDays md \<Longrightarrow>
           timetable pd1 ! c ! d
             \<longleftrightarrow> d \<in> set (timeWindows md ! c) \<and> (\<forall>r\<in>set conss. allowsDay r c d)"
proof -
  from run obtain tt' where f: "foldE (setTimeTable_step md) conss
          (setTimeTable_reset md (timetable pd)) = Inr tt'"
    and pd1: "timetable pd1 = tt'"
    by (auto simp: setTimeTable_def split: sum.splits)
  note r0 = setTimeTable_reset_spec(1)[OF shape]
  have w0: "\<forall>a<nC md. \<forall>b<nDays md. setTimeTable_reset md (timetable pd) ! a ! b
        \<longrightarrow> b \<in> set (timeWindows md ! a)"
    using setTimeTable_reset_spec(2)[OF shape] by blast
  from conss_shape_within[OF f r0 w0]
  show "rect (nC md) (nDays md) (timetable pd1)"
    and "\<forall>a<nC md. \<forall>b<nDays md. timetable pd1 ! a ! b \<longrightarrow> b \<in> set (timeWindows md ! a)"
    unfolding pd1 by blast+
  show "timetable pd1 ! c ! d
             \<longleftrightarrow> d \<in> set (timeWindows md ! c) \<and> (\<forall>r\<in>set conss. allowsDay r c d)"
    if cd: "c < nC md" "d < nDays md"
    using conss_cell[OF f r0 w0 cd] setTimeTable_reset_spec(2)[OF shape cd]
    unfolding pd1 by simp
qed

text \<open>
  Claim C5. The timetable derivation first resets every customer's row to the base
  time-window availability (the derivation without records yields exactly the base
  windows). Processing one more active PROHIBIT record clears exactly the record's day,
  and fails on the assertion when that day is not available any more; processing one
  more active ENFORCE record, whose day must be available as well, leaves the customer's
  row true on the enforced day only; an inactive record changes nothing. After a
  derivation that completes on records that name days of the model, a day is available
  for a customer exactly when it is in the customer's window list, no active PROHIBIT record names that customer and day, and
  every active ENFORCE record of the customer names that day (for base windows on days 0
  and 2 and ENFORCE on day 2: false on day 0, true only on day 2).
\<close>

theorem setTimeTable_derivation:
  assumes shape: "rect (nC md) (nDays md) (timetable pd)"
  shows "(\<exists>pd0. setTimeTable md [] pd = Inr pd0
            \<and> (\<forall>c<nC md. \<forall>d<nDays md.
                  timetable pd0 ! c ! d \<longleftrightarrow> d \<in> set (timeWindows md ! c)))
       \<and> (setTimeTable md conss pd = Inr pd1 \<and> \<not> vaActive r
           \<longrightarrow> setTimeTable md (conss @ [r]) pd = Inr pd1)
       \<and> (setTimeTable md conss pd = Inr pd1 \<and> vaActive r
            \<and> Suc (customer (vaData r)) < nC md \<and> day (vaData r) < nDays md
            \<and> ctype (vaData r) = VA_PROHIBIT
           \<longrightarrow> (if timetable pd1 ! customer (vaData r) ! day (vaData r)
                then \<exists>pd2. setTimeTable md (conss @ [r]) pd = Inr pd2
                       \<and> (\<forall>a<nC md. \<forall>b<nDays md.
                             timetable pd2 ! a ! b \<longleftrightarrow>
                               timetable pd1 ! a ! b
                               \<and> \<not> (a = customer (vaData r) \<and> b = day (vaData r)))
                else setTimeTable md (conss @ [r]) pd = Inl AssertionFailed))
       \<and> (setTimeTable md conss pd = Inr pd1 \<and> vaActive r
            \<and> Suc (customer (vaData r)) < nC md \<and> day (vaData r) < nDays md
            \<and> ctype (vaData r) = VA_ENFORCE
           \<longrightarrow> (if timetable pd1 ! customer (vaData r) ! day (vaData r)
                then \<exists>pd2. setTimeTable md (conss @ [r]) pd = Inr pd2
                       \<and> (\<forall>a<nC md. \<forall>b<nDays md.
                             timetable pd2 ! a ! b \<longleftrightarrow>
                               (if a = customer (vaData r) then b = day (vaData r)
                                else timetable pd1 ! a ! b))
                else setTimeTable md (conss @ [r]) pd = Inl AssertionFailed))
       \<and> (setTimeTable md conss pd = Inr pd'
            \<and> (\<forall>r\<in>set conss. vaActive r \<longrightarrow> day (vaData r) < nDays md)
           \<longrightarrow> (\<forall>c<nC md. \<forall>d<nDays md.
                  timetable pd' ! c ! d \<longleftrightarrow>
                    d \<in> set (timeWindows md ! c)
                    \<and> (\<forall>r\<in>set conss. vaActive r \<and> customer (vaData r) = c
                          \<longrightarrow> (ctype (vaData r) = VA_PROHIBIT \<longrightarrow> day (vaData r) \<noteq> d)
                            \<and> (ctype (vaData r) = VA_ENFORCE \<longrightarrow> day (vaData r) = d))))"
proof (intro conjI)
  have "setTimeTable md [] pd = Inr (pd\<lparr>timetable := setTimeTable_reset md (timetable pd)\<rparr>)"
    by (simp add: setTimeTable_def)
  moreover have "\<forall>c<nC md. \<forall>d<nDays md.
      timetable (pd\<lparr>timetable := setTimeTable_reset md (timetable pd)\<rparr>) ! c ! d
        \<longleftrightarrow> d \<in> set (timeWindows md ! c)"
    using setTimeTable_reset_spec(2)[OF shape] by simp
  ultimately show "\<exists>pd0. setTimeTable md [] pd = Inr pd0
            \<and> (\<forall>c<nC md. \<forall>d<nDays md.
                  timetable pd0 ! c ! d \<longleftrightarrow> d \<in> set (timeWindows md ! c))"
    by blast
next
  show "setTimeTable md conss pd = Inr pd1 \<and> \<not> vaActive r
           \<longrightarrow> setTimeTable md (conss @ [r]) pd = Inr pd1"
    by (simp add: setTimeTable_snoc setTimeTable_step_def)
next
  show "setTimeTable md conss pd = Inr pd1 \<and> vaActive r
            \<and> Suc (customer (vaData r)) < nC md \<and> day (vaData r) < nDays md
            \<and> ctype (vaData r) = VA_PROHIBIT
           \<longrightarrow> (if timetable pd1 ! customer (vaData r) ! day (vaData r)
                then \<exists>pd2. setTimeTable md (conss @ [r]) pd = Inr pd2
                       \<and> (\<forall>a<nC md. \<forall>b<nDays md.
                             timetable pd2 ! a ! b \<longleftrightarrow>
                               timetable pd1 ! a ! b
                               \<and> \<not> (a = customer (vaData r) \<and> b = day (vaData r)))
                else setTimeTable md (conss @ [r]) pd = Inl AssertionFailed)"
  proof (intro impI, elim conjE)
    assume run: "setTimeTable md conss pd = Inr pd1" and r: "vaActive r"
      "Suc (customer (vaData r)) < nC md" "ctype (vaData r) = VA_PROHIBIT"
    note inv = setTimeTable_invariant[OF run shape]
    show "if timetable pd1 ! customer (vaData r) ! day (vaData r)
                then \<exists>pd2. setTimeTable md (conss @ [r]) pd = Inr pd2
                       \<and> (\<forall>a<nC md. \<forall>b<nDays md.
                             timetable pd2 ! a ! b \<longleftrightarrow>
                               timetable pd1 ! a ! b
                               \<and> \<not> (a = customer (vaData r) \<and> b = day (vaData r)))
                else setTimeTable md (conss @ [r]) pd = Inl AssertionFailed"
    proof (cases "timetable pd1 ! customer (vaData r) ! day (vaData r)")
      case False
      with run r show ?thesis by (simp add: setTimeTable_snoc setTimeTable_step_def)
    next
      case True
      let ?tt = "array2_set (timetable pd1) (customer (vaData r)) (day (vaData r)) False"
      from True r have step: "setTimeTable_step md r (timetable pd1) = Inr ?tt"
        by (simp add: setTimeTable_step_def)
      with run have res: "setTimeTable md (conss @ [r]) pd = Inr (pd1\<lparr>timetable := ?tt\<rparr>)"
        by (simp add: setTimeTable_snoc)
      have "\<forall>a<nC md. \<forall>b<nDays md. ?tt ! a ! b \<longleftrightarrow>
          timetable pd1 ! a ! b \<and> \<not> (a = customer (vaData r) \<and> b = day (vaData r))"
        using setTimeTable_step_spec(2)[OF step inv(1)] r by auto
      with res True show ?thesis by auto
    qed
  qed
next
  show "setTimeTable md conss pd = Inr pd1 \<and> vaActive r
            \<and> Suc (customer (vaData r)) < nC md \<and> day (vaData r) < nDays md
            \<and> ctype (vaData r) = VA_ENFORCE
           \<longrightarrow> (if timetable pd1 ! customer (vaData r) ! day (vaData r)
                then \<exists>pd2. setTimeTable md (conss @ [r]) pd = Inr pd2
                       \<and> (\<forall>a<nC md. \<forall>b<nDays md.
                             timetable pd2 ! a ! b \<longleftrightarrow>
                               (if a = customer (vaData r) then b = day (vaData r)
                                else timetable pd1 ! a ! b))
                else setTimeTable md (conss @ [r]) pd = Inl AssertionFailed)"
  proof (intro impI, elim conjE)
    assume run: "setTimeTable md conss pd = Inr pd1" and r: "vaActive r"
      "Suc (customer (vaData r)) < nC md" "ctype (vaData r) = VA_ENFORCE"
    note inv = setTimeTable_invariant[OF run shape]
    show "if timetable pd1 ! customer (vaData r) ! day (vaData r)
                then \<exists>pd2. setTimeTable md (conss @ [r]) pd = Inr pd2
                       \<and> (\<forall>a<nC md. \<forall>b<nDays md.
                             timetable pd2 ! a ! b \<longleftrightarrow>
                               (if a = customer (vaData r) then b = day (vaData r)
                                else timetable pd1 ! a ! b))
                else setTimeTable md (conss @ [r]) pd = Inl AssertionFailed"
    proof (cases "timetable pd1 ! customer (vaData r) ! day (vaData r)")
      case False
      with run r show ?thesis by (simp add: setTimeTable_snoc setTimeTable_step_def)
    next
      case True
      let ?tt = "array2_set
               (fold (\<lambda>w tt. array2_set tt (customer (vaData r)) w False)
                  (timeWindows md ! customer (vaData r)) (timetable pd1))
               (customer (vaData r)) (day (vaData r)) True"
      from True r have step: "setTimeTable_step md r (timetable pd1) = Inr ?tt"
        by (simp add: setTimeTable_step_def)
      with run have res: "setTimeTable md (conss @ [r]) pd = Inr (pd1\<lparr>timetable := ?tt\<rparr>)"
        by (simp add: setTimeTable_snoc)
      have "?tt ! a ! b \<longleftrightarrow> (if a = customer (vaData r) then b = day (vaData r)
                                else timetable pd1 ! a ! b)"
        if ab: "a < nC md" "b < nDays md" for a b
      proof -
        from inv(2) ab have "timetable pd1 ! a ! b \<Longrightarrow> b \<in> set (timeWindows md ! a)" by blast
        with setTimeTable_step_spec(2)[OF step inv(1) ab] r show ?thesis by auto
      qed
      with res True show ?thesis by auto
    qed
  qed
next
  show "setTimeTable md conss pd = Inr pd'
            \<and> (\<forall>r\<in>set conss. vaActive r \<longrightarrow> day (vaData r) < nDays md)
           \<longrightarrow> (\<forall>c<nC md. \<forall>d<nDays md.
                  timetable pd' ! c ! d \<longleftrightarrow>
                    d \<in> set (timeWindows md ! c)
                    \<and> (\<forall>r\<in>set conss. vaActive r \<and> customer (vaData r) = c
                          \<longrightarrow> (ctype (vaData r) = VA_PROHIBIT \<longrightarrow> day (vaData r) \<noteq> d)
                            \<and> (ctype (vaData r) = VA_ENFORCE \<longrightarrow> day (vaData r) = d)))"
  proof (intro impI allI)
    fix c d
    assume "setTimeTable md conss pd = Inr pd'
            \<and> (\<forall>r\<in>set conss. vaActive r \<longrightarrow> day (vaData r) < nDays md)"
      and c: "c < nC md" and d: "d < nDays md"
    then have run: "setTimeTable md conss pd = Inr pd'" by simp
    from setTimeTable_invariant(3)[OF run shape c d]
    show "timetable pd' ! c ! d \<longleftrightarrow>
                    d \<in> set (timeWindows md ! c)
                    \<and> (\<forall>r\<in>set conss. vaActive r \<and> customer (vaData r) = c
                          \<longrightarrow> (ctype (vaData r) = VA_PROHIBIT \<longrightarrow> day (vaData r) \<noteq> d)
                            \<and> (ctype (vaData r) = VA_ENFORCE \<longrightarrow> day (vaData r) = d))"
      by (simp add: allowsDay_def)
  qed
qed


theorem setTimeTable_derivation_witness:
  "(\<exists>pd'. setTimeTable
        \<lparr>nC = 5, nDays = 3, timeWindows = [[0], [0], [0], [0, 2], [0, 1, 2]],
         modelNeighbors = replicate 5 (replicate 3 [])\<rparr>
        [\<lparr>vaActive = True,
          vaData = \<lparr>customer = 3, day = 2, ctype = VA_ENFORCE, npropagatedvars = 0,
                    npropagations = 0, propagated = False\<rparr>\<rparr>]
        (projr (SCIPpricerVrpActivate
           \<lparr>nC = 5, nDays = 3, timeWindows = [[0], [0], [0], [0, 2], [0, 1, 2]],
            modelNeighbors = replicate 5 (replicate 3 [])\<rparr>)) = Inr pd'
      \<and> \<not> timetable pd' ! 3 ! 0 \<and> \<not> timetable pd' ! 3 ! 1 \<and> timetable pd' ! 3 ! 2)
   \<and> (\<exists>pd0. setTimeTable
        \<lparr>nC = 5, nDays = 3, timeWindows = [[0], [0], [0], [0, 2], [0, 1, 2]],
         modelNeighbors = replicate 5 (replicate 3 [])\<rparr>
        []
        (projr (SCIPpricerVrpActivate
           \<lparr>nC = 5, nDays = 3, timeWindows = [[0], [0], [0], [0, 2], [0, 1, 2]],
            modelNeighbors = replicate 5 (replicate 3 [])\<rparr>)) = Inr pd0
      \<and> timetable pd0 ! 3 ! 0 \<and> \<not> timetable pd0 ! 3 ! 1 \<and> timetable pd0 ! 3 ! 2)
   \<and> (\<exists>pd2. setTimeTable
        \<lparr>nC = 5, nDays = 3, timeWindows = [[0], [0], [0], [0, 2], [0, 1, 2]],
         modelNeighbors = replicate 5 (replicate 3 [])\<rparr>
        [\<lparr>vaActive = True,
          vaData = \<lparr>customer = 3, day = 2, ctype = VA_ENFORCE, npropagatedvars = 0,
                    npropagations = 0, propagated = False\<rparr>\<rparr>,
         \<lparr>vaActive = True,
          vaData = \<lparr>customer = 3, day = 2, ctype = VA_PROHIBIT, npropagatedvars = 0,
                    npropagations = 0, propagated = False\<rparr>\<rparr>]
        (projr (SCIPpricerVrpActivate
           \<lparr>nC = 5, nDays = 3, timeWindows = [[0], [0], [0], [0, 2], [0, 1, 2]],
            modelNeighbors = replicate 5 (replicate 3 [])\<rparr>)) = Inr pd2
      \<and> \<not> timetable pd2 ! 3 ! 2)
   \<and> setTimeTable
        \<lparr>nC = 5, nDays = 3, timeWindows = [[0], [0], [0], [0, 2], [0, 1, 2]],
         modelNeighbors = replicate 5 (replicate 3 [])\<rparr>
        [\<lparr>vaActive = True,
          vaData = \<lparr>customer = 3, day = 2, ctype = VA_ENFORCE, npropagatedvars = 0,
                    npropagations = 0, propagated = False\<rparr>\<rparr>,
         \<lparr>vaActive = True,
          vaData = \<lparr>customer = 3, day = 0, ctype = VA_PROHIBIT, npropagatedvars = 0,
                    npropagations = 0, propagated = False\<rparr>\<rparr>]
        (projr (SCIPpricerVrpActivate
           \<lparr>nC = 5, nDays = 3, timeWindows = [[0], [0], [0], [0, 2], [0, 1, 2]],
            modelNeighbors = replicate 5 (replicate 3 [])\<rparr>)) = Inl AssertionFailed"
proof -
  let ?md = "\<lparr>nC = 5, nDays = 3, timeWindows = [[0], [0], [0], [0, 2], [0, 1, 2]],
         modelNeighbors = replicate 5 (replicate 3 [])\<rparr>"
  let ?pd = "projr (SCIPpricerVrpActivate ?md)"
  let ?e = "\<lparr>vaActive = True,
          vaData = \<lparr>customer = 3, day = 2, ctype = VA_ENFORCE, npropagatedvars = 0,
                    npropagations = 0, propagated = False\<rparr>\<rparr>"
  let ?p0 = "\<lparr>vaActive = True,
         vaData = \<lparr>customer = 3, day = 0, ctype = VA_PROHIBIT, npropagatedvars = 0,
                   npropagations = 0, propagated = False\<rparr>\<rparr>"
  let ?p2 = "\<lparr>vaActive = True,
         vaData = \<lparr>customer = 3, day = 2, ctype = VA_PROHIBIT, npropagatedvars = 0,
                   npropagations = 0, propagated = False\<rparr>\<rparr>"
  have shape: "rect (nC ?md) (nDays ?md) (timetable ?pd)" by code_simp
  have "isOK (setTimeTable ?md [?e] ?pd)" by code_simp
  then obtain pd' where run: "setTimeTable ?md [?e] ?pd = Inr pd'"
    by (auto dest!: isOK_obtain)
  have days: "\<forall>r\<in>set [?e]. vaActive r \<longrightarrow> day (vaData r) < nDays ?md" by simp
  have idx: "(3::nat) < 5" "(0::nat) < 3" "(1::nat) < 3" "(2::nat) < 3" by simp_all
  note T = setTimeTable_derivation[OF shape, of "[?e]" pd' ?p2 pd']
  from T run days have cell: "\<forall>c<5. \<forall>d<3. timetable pd' ! c ! d \<longleftrightarrow>
      d \<in> set ([[0], [0], [0], [0, 2], [0, 1, 2]] ! c)
      \<and> (\<forall>r\<in>set [?e]. vaActive r \<and> customer (vaData r) = c
            \<longrightarrow> (ctype (vaData r) = VA_PROHIBIT \<longrightarrow> day (vaData r) \<noteq> d)
              \<and> (ctype (vaData r) = VA_ENFORCE \<longrightarrow> day (vaData r) = d))"
    by simp
  from cell idx have A0: "\<not> timetable pd' ! 3 ! 0"
    and A1: "\<not> timetable pd' ! 3 ! 1"
    and A2: "timetable pd' ! 3 ! 2"
    by fastforce+
  from T obtain pd0 where reset: "setTimeTable ?md [] ?pd = Inr pd0"
    and R: "\<forall>c<5. \<forall>d<3. timetable pd0 ! c ! d \<longleftrightarrow> d \<in> set ([[0], [0], [0], [0, 2], [0, 1, 2]] ! c)"
    by auto
  from R idx have B: "timetable pd0 ! 3 ! 0 \<and> \<not> timetable pd0 ! 3 ! 1 \<and> timetable pd0 ! 3 ! 2"
    by fastforce
  from T run A2 obtain pd2 where p2: "setTimeTable ?md ([?e] @ [?p2]) ?pd = Inr pd2"
    and P: "\<forall>a<5. \<forall>b<3. timetable pd2 ! a ! b \<longleftrightarrow> timetable pd' ! a ! b \<and> \<not> (a = 3 \<and> b = 2)"
    by auto
  from P idx have C: "\<not> timetable pd2 ! 3 ! 2" by fastforce
  note T0 = setTimeTable_derivation[OF shape, of "[?e]" pd' ?p0 pd']
  from T0 run A0 have D: "setTimeTable ?md ([?e] @ [?p0]) ?pd = Inl AssertionFailed"
    by simp
  from run A0 A1 A2 reset B p2 C D show ?thesis by auto
qed

subsection \<open>The enforced-customer map\<close>

lemma countAvailable_loop_spec:
  "countAvailable_loop row ws cnt dayAv =
     (cnt + int (length (filter (\<lambda>w. row ! w) ws)),
      if filter (\<lambda>w. row ! w) ws = [] then dayAv else int (last (filter (\<lambda>w. row ! w) ws)))"
  by (induction ws arbitrary: cnt dayAv) auto

lemma length_one_iff: "length xs = 1 \<longleftrightarrow> (\<exists>x. xs = [x])"
  by (cases xs) auto

lemma nEC_reset_fold:
  "foldE nEC_reset [0 ..< n] nec =
     (if n \<le> length nec then Inr (fold (\<lambda>d nec. nec[d := 0]) [0 ..< n] nec)
      else Inl OutOfBounds)"
proof (induction n)
  case 0
  then show ?case by simp
next
  case (Suc n)
  have len: "length (fold (\<lambda>d nec. nec[d := 0]) [0 ..< n] nec) = length nec"
    using fold_fill[of 0 "[0 ..< n]" nec] by simp
  have "foldE nEC_reset [0 ..< Suc n] nec =
      (case foldE nEC_reset [0 ..< n] nec of Inl e \<Rightarrow> Inl e | Inr st' \<Rightarrow> nEC_reset n st')"
    by (simp add: foldE_snoc)
  also have "\<dots> = (if Suc n \<le> length nec
       then Inr (fold (\<lambda>d nec. nec[d := 0]) [0 ..< Suc n] nec) else Inl OutOfBounds)"
    unfolding Suc by (simp add: nEC_reset_def len)
  finally show ?case .
qed

lemma setEnforcedCustomers_step_spec:
  "setEnforcedCustomers_step md tt c (ec, nec) =
     (if enforcedDay md tt c = - 1 then Inr (ec[c := - 1], nec)
      else if nat (enforcedDay md tt c) < length nec
        then Inr (ec[c := enforcedDay md tt c],
                  nec[nat (enforcedDay md tt c) := nec ! nat (enforcedDay md tt c) + 1])
      else Inl OutOfBounds)"
proof -
  let ?f = "filter (\<lambda>w. tt ! c ! w) (timeWindows md ! c)"
  show ?thesis
  proof (cases "\<exists>d. ?f = [d]")
    case True
    then obtain d where d: "?f = [d]" by blast
    then show ?thesis
      by (simp add: setEnforcedCustomers_step_def countAvailable_loop_spec enforcedDay_def)
  next
    case False
    then have "length ?f \<noteq> 1" using length_one_iff[of ?f] by blast
    moreover from False have "enforcedDay md tt c = - 1"
      by (auto simp: enforcedDay_def split: list.splits)
    ultimately show ?thesis
      by (simp add: setEnforcedCustomers_step_def countAvailable_loop_spec)
  qed
qed

lemma enforcedDay_cases: "enforcedDay md tt c = - 1 \<or> (\<exists>d. enforcedDay md tt c = int d)"
  by (auto simp: enforcedDay_def split: list.splits)

lemma setEnforcedCustomers_fold:
  assumes "m \<le> length ec0"
    and "foldE (setEnforcedCustomers_step md tt) [0 ..< m] (ec0, nec0) = Inr (ec, nec)"
  shows "length ec = length ec0
    \<and> length nec = length nec0
    \<and> (\<forall>c<m. ec ! c = enforcedDay md tt c)
    \<and> (\<forall>c<m. enforcedDay md tt c = - 1 \<or> nat (enforcedDay md tt c) < length nec0)
    \<and> (\<forall>d<length nec0. nec ! d
          = nec0 ! d + int (length (filter (\<lambda>c. enforcedDay md tt c = int d) [0 ..< m])))"
  using assms
proof (induction m arbitrary: ec nec)
  case 0
  then show ?case by simp
next
  case (Suc m)
  from Suc.prems(2) obtain ec1 nec1
    where st: "foldE (setEnforcedCustomers_step md tt) [0 ..< m] (ec0, nec0) = Inr (ec1, nec1)"
      and step: "setEnforcedCustomers_step md tt m (ec1, nec1) = Inr (ec, nec)"
    by (auto simp: foldE_snoc split: sum.splits)
  from Suc.prems(1) have "m \<le> length ec0" by simp
  from Suc.IH[OF this st] have IH: "length ec1 = length ec0" "length nec1 = length nec0"
      "\<forall>c<m. ec1 ! c = enforcedDay md tt c"
      "\<forall>c<m. enforcedDay md tt c = - 1 \<or> nat (enforcedDay md tt c) < length nec0"
      "\<forall>d<length nec0. nec1 ! d
          = nec0 ! d + int (length (filter (\<lambda>c. enforcedDay md tt c = int d) [0 ..< m]))"
    by simp_all
  from step have ok: "enforcedDay md tt m = - 1 \<or> nat (enforcedDay md tt m) < length nec1"
    and f: "ec = ec1[m := enforcedDay md tt m]"
      "nec = (if enforcedDay md tt m = - 1 then nec1
         else nec1[nat (enforcedDay md tt m) := nec1 ! nat (enforcedDay md tt m) + 1])"
    by (auto simp: setEnforcedCustomers_step_spec split: if_splits)
  have m: "m < length ec1" using Suc.prems IH(1) by simp
  have A: "\<forall>c<Suc m. ec ! c = enforcedDay md tt c"
    using IH(3) m by (auto simp: f nth_list_update less_Suc_eq)
  have A2: "\<forall>c<Suc m. enforcedDay md tt c = - 1 \<or> nat (enforcedDay md tt c) < length nec0"
    using IH(4) ok IH(2) by (auto simp: less_Suc_eq)
  have B: "nec ! d
       = nec0 ! d + int (length (filter (\<lambda>c. enforcedDay md tt c = int d) [0 ..< Suc m]))"
    if d: "d < length nec0" for d
  proof -
    from IH(5) d have n: "nec1 ! d
          = nec0 ! d + int (length (filter (\<lambda>c. enforcedDay md tt c = int d) [0 ..< m]))"
      by blast
    from enforcedDay_cases[of md tt m] show ?thesis
    proof
      assume e: "enforcedDay md tt m = - 1"
      then show ?thesis using n by (simp add: f)
    next
      assume "\<exists>d'. enforcedDay md tt m = int d'"
      then obtain d' where e: "enforcedDay md tt m = int d'" by blast
      show ?thesis
      proof (cases "d' = d")
        case True
        then show ?thesis using e n d IH(2) by (simp add: f)
      next
        case False
        then show ?thesis using e n by (simp add: f)
      qed
    qed
  qed
  show ?case using IH(1,2) A A2 B by (simp add: f)
qed

lemma length_filter_upt_card:
  "length (filter P [0 ..< m]) = card {c. c < m \<and> P c}"
proof -
  have "{i. i < length [0 ..< m] \<and> P ([0 ..< m] ! i)} = {c. c < m \<and> P c}"
    by auto
  then show ?thesis by (simp add: length_filter_conv_card)
qed

lemma setEnforcedCustomers_spec:
  assumes ec: "nC md - 1 \<le> length (eC pd)"
    and run: "setEnforcedCustomers md pd = Inr pd'"
  shows "length (eC pd') = length (eC pd)"
    and "length (nEC pd') = length (nEC pd)"
    and "c < nC md - 1 \<Longrightarrow> eC pd' ! c = enforcedDay md (timetable pd) c"
    and "d < nDays md \<Longrightarrow>
           nEC pd' ! d
             = int (card {c. c < nC md - 1 \<and> enforcedDay md (timetable pd) c = int d})"
    and "isForbidden pd' = isForbidden pd"
    and "toDepot pd' = toDepot pd"
    and "timetable pd' = timetable pd"
    and "neighbors pd' = neighbors pd"
    and "lastnodeid pd' = lastnodeid pd"
    and "nDays md \<le> length (nEC pd)"
proof -
  define nec0 where "nec0 = fold (\<lambda>d nec. nec[d := 0]) [0 ..< nDays md] (nEC pd)"
  from run show nd: "nDays md \<le> length (nEC pd)"
    by (auto simp: setEnforcedCustomers_def nEC_reset_fold split: if_splits)
  have n0: "length nec0 = length (nEC pd)"
    and z0: "\<And>d. d < length (nEC pd) \<Longrightarrow> d < nDays md \<Longrightarrow> nec0 ! d = 0"
    using fold_fill[of 0 "[0 ..< nDays md]" "nEC pd"] unfolding nec0_def by auto
  from run nd obtain ec1 nec1
    where st: "foldE (setEnforcedCustomers_step md (timetable pd)) [0 ..< nC md - 1]
      (eC pd, nec0) = Inr (ec1, nec1)"
      and res: "pd' = pd\<lparr>eC := ec1, nEC := nec1\<rparr>"
    by (auto simp: setEnforcedCustomers_def nEC_reset_fold nec0_def split: sum.splits)
  from setEnforcedCustomers_fold[OF ec st]
  have F: "length ec1 = length (eC pd)" "length nec1 = length nec0"
    "\<forall>c<nC md - 1. ec1 ! c = enforcedDay md (timetable pd) c"
    "\<forall>d<length nec0. nec1 ! d = nec0 ! d
        + int (length (filter (\<lambda>c. enforcedDay md (timetable pd) c = int d) [0 ..< nC md - 1]))"
    by blast+
  show "length (eC pd') = length (eC pd)" "length (nEC pd') = length (nEC pd)"
    using F(1,2) n0 by (simp_all add: res)
  show "c < nC md - 1 \<Longrightarrow> eC pd' ! c = enforcedDay md (timetable pd) c"
    using F(3) by (simp add: res)
  show "d < nDays md \<Longrightarrow>
           nEC pd' ! d
             = int (card {c. c < nC md - 1 \<and> enforcedDay md (timetable pd) c = int d})"
    using F(4) n0 z0[of d] nd by (simp add: res length_filter_upt_card)
  show "isForbidden pd' = isForbidden pd" "toDepot pd' = toDepot pd"
    "timetable pd' = timetable pd" "neighbors pd' = neighbors pd"
    "lastnodeid pd' = lastnodeid pd"
    by (simp_all add: res)
qed

text \<open>When the derivation completes, the map is the one of the specification: a customer
  with exactly one available entry in its window list is enforced on that day, every
  other customer has \<open>-1\<close>, and \<open>nEC\<close> counts the customers enforced per day.\<close>

lemma setEnforcedCustomers_map:
  assumes "length (eC pd) = nC md" and run: "setEnforcedCustomers md pd = Inr pd'"
  shows "(\<forall>c<nC md - 1.
            (\<forall>d. filter (\<lambda>w. timetable pd ! c ! w) (timeWindows md ! c) = [d]
                   \<longrightarrow> eC pd' ! c = int d)
            \<and> ((\<nexists>d. filter (\<lambda>w. timetable pd ! c ! w) (timeWindows md ! c) = [d])
                   \<longrightarrow> eC pd' ! c = - 1))
       \<and> (\<forall>d<nDays md.
            nEC pd' ! d = int (card {c. c < nC md - 1 \<and> eC pd' ! c = int d}))"
proof -
  from assms(1) have ec: "nC md - 1 \<le> length (eC pd)" by simp
  note sp = setEnforcedCustomers_spec[OF ec run]
  have A: "\<forall>c<nC md - 1.
            (\<forall>d. filter (\<lambda>w. timetable pd ! c ! w) (timeWindows md ! c) = [d]
                   \<longrightarrow> eC pd' ! c = int d)
            \<and> ((\<nexists>d. filter (\<lambda>w. timetable pd ! c ! w) (timeWindows md ! c) = [d])
                   \<longrightarrow> eC pd' ! c = - 1)"
    using sp(3) by (auto simp: enforcedDay_def split: list.splits)
  have B: "nEC pd' ! d = int (card {c. c < nC md - 1 \<and> eC pd' ! c = int d})"
    if d: "d < nDays md" for d
  proof -
    have "{c. c < nC md - 1 \<and> eC pd' ! c = int d}
        = {c. c < nC md - 1 \<and> enforcedDay md (timetable pd) c = int d}"
      using sp(3) by auto
    with sp(4)[OF d] show ?thesis by simp
  qed
  from A B show ?thesis by blast
qed

lemma setEnforcedCustomers_overrun:
  "length (nEC pd) < nDays md \<Longrightarrow> setEnforcedCustomers md pd = Inl OutOfBounds"
  by (simp add: setEnforcedCustomers_def nEC_reset_fold)

lemma SCIPpricerVrpActivate_overrun:
  "nC md < nDays md \<Longrightarrow> SCIPpricerVrpActivate md = Inl OutOfBounds"
  by (simp add: SCIPpricerVrpActivate_def)

text \<open>
  Claim C9. The enforced-customer map is claimed to hold, for every day \<open>d\<close>, the
  number of customers enforced on \<open>d\<close> in \<open>nEC[d]\<close>. The array \<open>nEC\<close> is allocated
  with \<open>nC\<close> cells (and freed with \<open>nDays\<close>) but indexed by day. For a model with
  two customers and three days in which customer 0 is available on day 2 only, the
  claim asks for \<open>nEC[2] = 1\<close>; both the activation and the derivation of the map write
  past the two cells of \<open>nEC\<close>.
\<close>

theorem setEnforcedCustomers_overruns_nEC:
  "SCIPpricerVrpActivate
      \<lparr>nC = 2, nDays = 3, timeWindows = [[2], [0, 1, 2]],
       modelNeighbors = [[[1], [1], [1]], [[0], [0], [0]]]\<rparr> = Inl OutOfBounds
   \<and> pricerdata_sized
        \<lparr>nC = 2, nDays = 3, timeWindows = [[2], [0, 1, 2]],
         modelNeighbors = [[[1], [1], [1]], [[0], [0], [0]]]\<rparr>
        \<lparr>isForbidden = [[False, False], [False, False]], toDepot = [True],
         timetable = [[False, False, True], [True, True, True]],
         eC = [2, - 1], nEC = [0, 0],
         neighbors = [[[1], [1], [1]], [[0], [0], [0]]], lastnodeid = 1\<rparr>
   \<and> enforcedDay
        \<lparr>nC = 2, nDays = 3, timeWindows = [[2], [0, 1, 2]],
         modelNeighbors = [[[1], [1], [1]], [[0], [0], [0]]]\<rparr>
        [[False, False, True], [True, True, True]] 0 = 2
   \<and> setEnforcedCustomers
        \<lparr>nC = 2, nDays = 3, timeWindows = [[2], [0, 1, 2]],
         modelNeighbors = [[[1], [1], [1]], [[0], [0], [0]]]\<rparr>
        \<lparr>isForbidden = [[False, False], [False, False]], toDepot = [True],
         timetable = [[False, False, True], [True, True, True]],
         eC = [2, - 1], nEC = [0, 0],
         neighbors = [[[1], [1], [1]], [[0], [0], [0]]], lastnodeid = 1\<rparr> = Inl OutOfBounds"
  by (intro conjI; code_simp)

subsection \<open>The neighbor lists\<close>

lemma copyNeighbors_filter:
  "copyNeighbors tt forb i j nbs new
     = new @ filter (\<lambda>nb. tt ! nb ! j \<and> \<not> forb ! i ! nb) nbs"
  by (induction nbs arbitrary: new) auto

lemma clearNeighbors_spec:
  assumes "rect (nC md) (nDays md) (neighbors pd)"
  shows "rect (nC md) (nDays md) (neighbors (clearNeighbors md pd))"
    and "i < nC md \<Longrightarrow> j < nDays md \<Longrightarrow> neighbors (clearNeighbors md pd) ! i ! j = []"
    and "isForbidden (clearNeighbors md pd) = isForbidden pd"
    and "toDepot (clearNeighbors md pd) = toDepot pd"
    and "timetable (clearNeighbors md pd) = timetable pd"
    and "eC (clearNeighbors md pd) = eC pd"
    and "nEC (clearNeighbors md pd) = nEC pd"
    and "lastnodeid (clearNeighbors md pd) = lastnodeid pd"
  using fold_fill_rows[of "[]" "[0 ..< nDays md]" "[0 ..< nC md]" "neighbors pd"] assms
  by (auto simp: clearNeighbors_def rect_iff same_shape_def)

lemma cell_spec:
  assumes run: "setCurrentNeighborhood_cell md dep i j pd = Inr pd'"
    and shape: "rect n nd (neighbors pd)"
  shows "rect n nd (neighbors pd')"
    and "a < n \<Longrightarrow> b < nd \<Longrightarrow>
           neighbors pd' ! a ! b =
             (if a = i \<and> b = j
              then (if \<not> dep \<and> \<not> timetable pd ! i ! j then [] else restrictedNeighbors md pd i j)
              else neighbors pd ! a ! b)"
    and "isForbidden pd' = isForbidden pd" and "toDepot pd' = toDepot pd"
    and "timetable pd' = timetable pd" and "eC pd' = eC pd" and "nEC pd' = nEC pd"
    and "lastnodeid pd' = lastnodeid pd"
proof -
  from run have empty: "neighbors pd ! i ! j = []"
    by (simp add: setCurrentNeighborhood_cell_def split: if_splits)
  consider (skip) "\<not> dep \<and> \<not> timetable pd ! i ! j" "pd' = pd"
    | (copy) "\<not> (\<not> dep \<and> \<not> timetable pd ! i ! j)"
        "pd' = pd\<lparr>neighbors := array2_set (neighbors pd) i j (restrictedNeighbors md pd i j)\<rparr>"
    using run
    by (auto simp: setCurrentNeighborhood_cell_def restrictedNeighbors_def copyNeighbors_filter
          split: if_splits)
  note cs = this
  show "rect n nd (neighbors pd')"
  proof (cases rule: cs)
    case skip
    then show ?thesis using shape by simp
  next
    case copy
    then show ?thesis using same_shape_rect[OF same_shape_set shape] by simp
  qed
  show "neighbors pd' ! a ! b =
             (if a = i \<and> b = j
              then (if \<not> dep \<and> \<not> timetable pd ! i ! j then [] else restrictedNeighbors md pd i j)
              else neighbors pd ! a ! b)" if ab: "a < n" "b < nd"
  proof (cases rule: cs)
    case skip
    then show ?thesis using empty by auto
  next
    case copy
    then show ?thesis using shape ab by (auto simp: rect_iff array2_set_nth)
  qed
  show "isForbidden pd' = isForbidden pd" "toDepot pd' = toDepot pd"
    "timetable pd' = timetable pd" "eC pd' = eC pd" "nEC pd' = nEC pd"
    "lastnodeid pd' = lastnodeid pd"
    by (cases rule: cs; simp)+
qed

text \<open>The value a completed cell holds.\<close>

lemma row_spec:
  assumes "foldE (setCurrentNeighborhood_cell md dep i) js pd = Inr pd'"
    and "rect n nd (neighbors pd)"
  shows "rect n nd (neighbors pd')
    \<and> (\<forall>a<n. \<forall>b<nd. neighbors pd' ! a ! b =
             (if a = i \<and> b \<in> set js
              then (if \<not> dep \<and> \<not> timetable pd ! i ! b then [] else restrictedNeighbors md pd i b)
              else neighbors pd ! a ! b))
    \<and> isForbidden pd' = isForbidden pd \<and> toDepot pd' = toDepot pd
    \<and> timetable pd' = timetable pd \<and> eC pd' = eC pd \<and> nEC pd' = nEC pd
    \<and> lastnodeid pd' = lastnodeid pd"
  using assms
proof (induction js arbitrary: pd)
  case Nil
  then show ?case by simp
next
  case (Cons j js)
  from Cons.prems(1) obtain pd1 where step: "setCurrentNeighborhood_cell md dep i j pd = Inr pd1"
    and rest: "foldE (setCurrentNeighborhood_cell md dep i) js pd1 = Inr pd'"
    by (rule foldE_ConsE)
  note c = cell_spec[OF step Cons.prems(2)]
  note IH = Cons.IH[OF rest c(1)]
  have rn: "restrictedNeighbors md pd1 i b = restrictedNeighbors md pd i b" for b
    using c(3,5) by (simp add: restrictedNeighbors_def)
  have "\<forall>a<n. \<forall>b<nd. neighbors pd' ! a ! b =
             (if a = i \<and> b \<in> set (j # js)
              then (if \<not> dep \<and> \<not> timetable pd ! i ! b then [] else restrictedNeighbors md pd i b)
              else neighbors pd ! a ! b)"
  proof (intro allI impI)
    fix a b assume ab: "a < n" "b < nd"
    from IH ab have "neighbors pd' ! a ! b =
             (if a = i \<and> b \<in> set js
              then (if \<not> dep \<and> \<not> timetable pd1 ! i ! b then [] else restrictedNeighbors md pd1 i b)
              else neighbors pd1 ! a ! b)" by blast
    with c(2)[OF ab] c(5) rn
    show "neighbors pd' ! a ! b =
             (if a = i \<and> b \<in> set (j # js)
              then (if \<not> dep \<and> \<not> timetable pd ! i ! b then [] else restrictedNeighbors md pd i b)
              else neighbors pd ! a ! b)" by auto
  qed
  with IH c(3-8) show ?case by simp
qed

lemma rows_spec:
  assumes "foldE (\<lambda>i. foldE (setCurrentNeighborhood_cell md dep i) js) is pd = Inr pd'"
    and "rect n nd (neighbors pd)"
  shows "rect n nd (neighbors pd')
    \<and> (\<forall>a<n. \<forall>b<nd. neighbors pd' ! a ! b =
             (if a \<in> set is \<and> b \<in> set js
              then (if \<not> dep \<and> \<not> timetable pd ! a ! b then [] else restrictedNeighbors md pd a b)
              else neighbors pd ! a ! b))
    \<and> isForbidden pd' = isForbidden pd \<and> toDepot pd' = toDepot pd
    \<and> timetable pd' = timetable pd \<and> eC pd' = eC pd \<and> nEC pd' = nEC pd
    \<and> lastnodeid pd' = lastnodeid pd"
  using assms
proof (induction "is" arbitrary: pd)
  case Nil
  then show ?case by simp
next
  case (Cons i "is")
  from Cons.prems(1) obtain pd1 where step: "foldE (setCurrentNeighborhood_cell md dep i) js pd = Inr pd1"
    and rest: "foldE (\<lambda>i. foldE (setCurrentNeighborhood_cell md dep i) js) is pd1 = Inr pd'"
    by (rule foldE_ConsE)
  note c = row_spec[OF step Cons.prems(2)]
  from c have c1: "rect n nd (neighbors pd1)" and cf: "isForbidden pd1 = isForbidden pd"
    and ct: "timetable pd1 = timetable pd"
    and cn: "\<forall>a<n. \<forall>b<nd. neighbors pd1 ! a ! b =
             (if a = i \<and> b \<in> set js
              then (if \<not> dep \<and> \<not> timetable pd ! i ! b then [] else restrictedNeighbors md pd i b)
              else neighbors pd ! a ! b)"
    by blast+
  note IH = Cons.IH[OF rest c1]
  have rn: "restrictedNeighbors md pd1 a b = restrictedNeighbors md pd a b" for a b
    using cf ct by (simp add: restrictedNeighbors_def)
  have "\<forall>a<n. \<forall>b<nd. neighbors pd' ! a ! b =
             (if a \<in> set (i # is) \<and> b \<in> set js
              then (if \<not> dep \<and> \<not> timetable pd ! a ! b then [] else restrictedNeighbors md pd a b)
              else neighbors pd ! a ! b)"
  proof (intro allI impI)
    fix a b assume ab: "a < n" "b < nd"
    from IH ab have "neighbors pd' ! a ! b =
             (if a \<in> set is \<and> b \<in> set js
              then (if \<not> dep \<and> \<not> timetable pd1 ! a ! b then [] else restrictedNeighbors md pd1 a b)
              else neighbors pd1 ! a ! b)" by blast
    moreover from cn ab have "neighbors pd1 ! a ! b =
             (if a = i \<and> b \<in> set js
              then (if \<not> dep \<and> \<not> timetable pd ! i ! b then [] else restrictedNeighbors md pd i b)
              else neighbors pd ! a ! b)" by blast
    ultimately show "neighbors pd' ! a ! b =
             (if a \<in> set (i # is) \<and> b \<in> set js
              then (if \<not> dep \<and> \<not> timetable pd ! a ! b then [] else restrictedNeighbors md pd a b)
              else neighbors pd ! a ! b)"
      using ct rn by auto
  qed
  with IH c show ?case by simp
qed

lemma setCurrentNeighborhood_spec:
  assumes run: "setCurrentNeighborhood md pd = Inr pd'"
    and shape: "rect (nC md) (nDays md) (neighbors pd)"
    and n: "0 < nC md"
  shows "rect (nC md) (nDays md) (neighbors pd')"
    and "a < nC md - 1 \<Longrightarrow> b < nDays md \<Longrightarrow>
           neighbors pd' ! a ! b
             = (if timetable pd ! a ! b then restrictedNeighbors md pd a b else [])"
    and "b < nDays md \<Longrightarrow>
           neighbors pd' ! (nC md - 1) ! b = restrictedNeighbors md pd (nC md - 1) b"
    and "isForbidden pd' = isForbidden pd" and "toDepot pd' = toDepot pd"
    and "timetable pd' = timetable pd" and "eC pd' = eC pd" and "nEC pd' = nEC pd"
    and "lastnodeid pd' = lastnodeid pd"
proof -
  from run obtain pd1
    where r1: "foldE (\<lambda>i. foldE (setCurrentNeighborhood_cell md False i) [0 ..< nDays md])
                 [0 ..< nC md - 1] pd = Inr pd1"
      and r2: "foldE (setCurrentNeighborhood_cell md True (nC md - 1)) [0 ..< nDays md] pd1 = Inr pd'"
    by (auto simp: setCurrentNeighborhood_def split: sum.splits)
  note A = rows_spec[OF r1 shape]
  from A have a1: "rect (nC md) (nDays md) (neighbors pd1)"
    and af: "isForbidden pd1 = isForbidden pd" and at: "timetable pd1 = timetable pd"
    and an: "\<forall>a<nC md. \<forall>b<nDays md. neighbors pd1 ! a ! b =
             (if a \<in> set [0 ..< nC md - 1] \<and> b \<in> set [0 ..< nDays md]
              then (if \<not> False \<and> \<not> timetable pd ! a ! b then [] else restrictedNeighbors md pd a b)
              else neighbors pd ! a ! b)"
    by blast+
  note B = row_spec[OF r2 a1]
  from B have bn: "\<forall>a<nC md. \<forall>b<nDays md. neighbors pd' ! a ! b =
             (if a = nC md - 1 \<and> b \<in> set [0 ..< nDays md]
              then (if \<not> True \<and> \<not> timetable pd1 ! (nC md - 1) ! b then []
                    else restrictedNeighbors md pd1 (nC md - 1) b)
              else neighbors pd1 ! a ! b)"
    by blast
  have rn: "restrictedNeighbors md pd1 a b = restrictedNeighbors md pd a b" for a b
    using af at by (simp add: restrictedNeighbors_def)
  show "rect (nC md) (nDays md) (neighbors pd')" using B by blast
  show "neighbors pd' ! a ! b
             = (if timetable pd ! a ! b then restrictedNeighbors md pd a b else [])"
    if ab: "a < nC md - 1" "b < nDays md"
  proof -
    from ab have a: "a < nC md" "a \<noteq> nC md - 1" by simp_all
    from bn a ab(2) have "neighbors pd' ! a ! b = neighbors pd1 ! a ! b" by simp
    also from an a(1) ab have "\<dots> = (if timetable pd ! a ! b then restrictedNeighbors md pd a b else [])"
      by simp
    finally show ?thesis .
  qed
  show "neighbors pd' ! (nC md - 1) ! b = restrictedNeighbors md pd (nC md - 1) b"
    if b: "b < nDays md"
  proof -
    from n have "nC md - 1 < nC md" by simp
    with bn b have "neighbors pd' ! (nC md - 1) ! b = restrictedNeighbors md pd1 (nC md - 1) b"
      by simp
    then show ?thesis by (simp add: rn)
  qed
  show "isForbidden pd' = isForbidden pd" "toDepot pd' = toDepot pd"
    "timetable pd' = timetable pd" "eC pd' = eC pd" "nEC pd' = nEC pd"
    "lastnodeid pd' = lastnodeid pd"
    using A B by simp_all
qed

lemma setTimeTable_frame:
  assumes "setTimeTable md conss pd = Inr pd'"
  shows "isForbidden pd' = isForbidden pd" "toDepot pd' = toDepot pd" "eC pd' = eC pd"
    "nEC pd' = nEC pd" "neighbors pd' = neighbors pd" "lastnodeid pd' = lastnodeid pd"
  using assms by (auto simp: setTimeTable_def split: sum.splits)

lemma set_current_graph_stages:
  assumes run: "set_current_graph md arcconss vaconss pd = Inr pd'"
    and sized: "pricerdata_sized md pd"
    and n: "0 < nC md"
  obtains pd1 successor predecessor pd2 pd3
  where "setArcMatrix md arcconss pd = Inr (pd1, successor, predecessor)"
    and "setTimeTable md vaconss pd1 = Inr pd2"
    and "setEnforcedCustomers md pd2 = Inr pd3"
    and "isForbidden pd' = isForbidden pd1" and "toDepot pd' = toDepot pd1"
    and "timetable pd' = timetable pd2"
    and "eC pd' = eC pd3"
    and "nEC pd' = nEC pd3"
    and "\<And>a b. a < nC md - 1 \<Longrightarrow> b < nDays md \<Longrightarrow>
           neighbors pd' ! a ! b
             = (if timetable pd' ! a ! b then restrictedNeighbors md pd' a b else [])"
    and "\<And>b. b < nDays md \<Longrightarrow>
           neighbors pd' ! (nC md - 1) ! b = restrictedNeighbors md pd' (nC md - 1) b"
proof -
  from run obtain st pd2 pd3 where s1: "setArcMatrix md arcconss pd = Inr st"
    and s2: "setTimeTable md vaconss (fst st) = Inr pd2"
    and s2e: "setEnforcedCustomers md pd2 = Inr pd3"
    and s3: "setCurrentNeighborhood md (clearNeighbors md pd3) = Inr pd'"
    by (auto simp: set_current_graph_def split: sum.splits)
  obtain pd1 s p where st: "st = (pd1, s, p)" by (cases st)
  from sized have shF: "rect (nC md) (nC md) (isForbidden pd)"
    and td: "length (toDepot pd) = nC md - 1"
    and shN: "rect (nC md) (nDays md) (neighbors pd)"
    and ec: "length (eC pd) = nC md"
    by (simp_all add: pricerdata_sized_def)
  note a = setArcMatrix_spec[OF s1[unfolded st] shF td]
  note t = setTimeTable_frame[OF s2[unfolded st fst_conv]]
  have ec2: "nC md - 1 \<le> length (eC pd2)" using t(3) a(8) ec by simp
  note e = setEnforcedCustomers_spec[OF ec2 s2e]
  let ?pd3 = "pd3"
  have shN3: "rect (nC md) (nDays md) (neighbors ?pd3)" using e(8) t(5) a(10) shN by simp
  note c = clearNeighbors_spec[OF shN3]
  let ?pd4 = "clearNeighbors md ?pd3"
  note g = setCurrentNeighborhood_spec[OF s3 c(1) n]
  have F: "isForbidden pd' = isForbidden ?pd4" and T: "timetable pd' = timetable ?pd4"
    using g(4,6) by simp_all
  have rn: "restrictedNeighbors md ?pd4 a b = restrictedNeighbors md pd' a b" for a b
    using F T by (simp add: restrictedNeighbors_def)
  show ?thesis
  proof (rule that[of pd1 s p pd2 pd3])
    show "setArcMatrix md arcconss pd = Inr (pd1, s, p)" using s1 st by simp
    show "setTimeTable md vaconss pd1 = Inr pd2" using s2 st by simp
    show "setEnforcedCustomers md pd2 = Inr pd3" by (rule s2e)
    show "isForbidden pd' = isForbidden pd1" using g(4) c(3) e(5) t(1) by simp
    show "toDepot pd' = toDepot pd1" using g(5) c(4) e(6) t(2) by simp
    show "timetable pd' = timetable pd2" using g(6) c(5) e(7) by simp
    show "eC pd' = eC ?pd3" using g(7) c(6) by simp
    show "nEC pd' = nEC ?pd3" using g(8) c(7) by simp
    show "neighbors pd' ! a ! b
             = (if timetable pd' ! a ! b then restrictedNeighbors md pd' a b else [])"
      if "a < nC md - 1" "b < nDays md" for a b
      using g(2)[OF that] rn T by simp
    show "neighbors pd' ! (nC md - 1) ! b = restrictedNeighbors md pd' (nC md - 1) b"
      if "b < nDays md" for b
      using g(3)[OF that] rn by simp
  qed
qed

lemma model_wf_neighbor:
  assumes "model_wf md" "i < nC md" "j < nDays md" "nb \<in> set (modelNeighbors md ! i ! j)"
  shows "nb < nC md"
  using assms by (auto simp: model_wf_def rect_iff list_all_length in_set_conv_nth)

text \<open>
  Claim C3 (as amended). After the restricted graph is rebuilt for a node, for every
  non-depot customer and day: the neighbor list is empty when the customer is not
  available on the day, and otherwise it is the base list of the pair filtered to the
  neighbors that are available on the day and whose arc from the customer is not
  forbidden, in base order; the depot row is the base list filtered in the same way
  (without an availability test on the depot itself). Enforced arcs act through the
  forbidden matrix only: for a non-depot customer with an active enforced outgoing arc
  the list holds no neighbor other than the enforced successor, and a non-depot customer
  that is the head of an active enforced arc (claimed by the tail as its successor)
  appears in no list of any other customer, nor in the depot row unless the depot is
  the tail.
\<close>

theorem set_current_graph_neighbors:
  assumes run: "set_current_graph md arcconss vaconss pd = Inr pd'"
    and sized: "pricerdata_sized md pd"
    and wf: "model_wf md"
  shows "(\<forall>i<nC md - 1. \<forall>j<nDays md.
            neighbors pd' ! i ! j =
              (if timetable pd' ! i ! j
               then filter (\<lambda>nb. timetable pd' ! nb ! j \<and> \<not> isForbidden pd' ! i ! nb)
                      (modelNeighbors md ! i ! j)
               else []))
       \<and> (\<forall>j<nDays md.
            neighbors pd' ! (nC md - 1) ! j =
              filter (\<lambda>nb. timetable pd' ! nb ! j \<and> \<not> isForbidden pd' ! (nC md - 1) ! nb)
                (modelNeighbors md ! (nC md - 1) ! j))
       \<and> (\<forall>r\<in>set arcconss. arcActive r \<and> arctype r = ENFORCE \<and> tail r < nC md - 1
            \<longrightarrow> (\<forall>j<nDays md. set (neighbors pd' ! tail r ! j) \<subseteq> {head r}))
       \<and> (\<forall>r\<in>set arcconss. arcActive r \<and> arctype r = ENFORCE \<and> head r < nC md - 1
            \<longrightarrow> (\<forall>i<nC md. i \<noteq> tail r
                   \<longrightarrow> (\<forall>j<nDays md. head r \<notin> set (neighbors pd' ! i ! j))))"
proof -
  from wf have n: "0 < nC md" by (simp add: model_wf_def)
  from run sized n obtain pd1 s p pd2
    where arc: "setArcMatrix md arcconss pd = Inr (pd1, s, p)"
      and F: "isForbidden pd' = isForbidden pd1"
      and N: "\<And>a b. a < nC md - 1 \<Longrightarrow> b < nDays md \<Longrightarrow>
           neighbors pd' ! a ! b
             = (if timetable pd' ! a ! b then restrictedNeighbors md pd' a b else [])"
      and D: "\<And>b. b < nDays md \<Longrightarrow>
           neighbors pd' ! (nC md - 1) ! b = restrictedNeighbors md pd' (nC md - 1) b"
    by (rule set_current_graph_stages) blast
  from sized have shF: "rect (nC md) (nC md) (isForbidden pd)"
    and td: "length (toDepot pd) = nC md - 1"
    by (simp_all add: pricerdata_sized_def)
  have forb: "\<And>a b. a < nC md \<Longrightarrow> b < nC md \<Longrightarrow>
      isForbidden pd' ! a ! b = (\<exists>r\<in>set arcconss. inducesForbidden (nC md) r a b)"
    unfolding F by (rule setArcMatrix_spec(5)[OF arc shF td])
  have member: "nb < nC md \<and> \<not> isForbidden pd' ! i ! nb"
    if "i < nC md" "j < nDays md" "nb \<in> set (neighbors pd' ! i ! j)" for i j nb
  proof -
    have "nb \<in> set (restrictedNeighbors md pd' i j)"
    proof (cases "i < nC md - 1")
      case True
      from N[OF True that(2)] that(3) show ?thesis by (simp split: if_splits)
    next
      case False
      with that(1) have "i = nC md - 1" by simp
      with D[OF that(2)] that(3) show ?thesis by simp
    qed
    then have "nb \<in> set (modelNeighbors md ! i ! j)" "\<not> isForbidden pd' ! i ! nb"
      by (simp_all add: restrictedNeighbors_def)
    then show ?thesis using model_wf_neighbor[OF wf that(1,2)] by blast
  qed
  have P1: "\<forall>i<nC md - 1. \<forall>j<nDays md.
            neighbors pd' ! i ! j =
              (if timetable pd' ! i ! j
               then filter (\<lambda>nb. timetable pd' ! nb ! j \<and> \<not> isForbidden pd' ! i ! nb)
                      (modelNeighbors md ! i ! j)
               else [])"
    using N by (simp add: restrictedNeighbors_def)
  have P2: "\<forall>j<nDays md.
            neighbors pd' ! (nC md - 1) ! j =
              filter (\<lambda>nb. timetable pd' ! nb ! j \<and> \<not> isForbidden pd' ! (nC md - 1) ! nb)
                (modelNeighbors md ! (nC md - 1) ! j)"
    using D by (simp add: restrictedNeighbors_def)
  have P3: "set (neighbors pd' ! tail r ! j) \<subseteq> {head r}"
    if r: "r \<in> set arcconss" "arcActive r" "arctype r = ENFORCE" "tail r < nC md - 1"
      and j: "j < nDays md" for r j
  proof
    fix nb assume "nb \<in> set (neighbors pd' ! tail r ! j)"
    from r(4) have t: "tail r < nC md" "\<not> isDepot (nC md) (tail r)"
      by (simp_all add: isDepot_def)
    from member[OF t(1) j \<open>nb \<in> set (neighbors pd' ! tail r ! j)\<close>]
    have nb: "nb < nC md" and nf: "\<not> isForbidden pd' ! tail r ! nb"
      by simp_all
    from nf forb[OF t(1) nb] r(1) have "\<not> inducesForbidden (nC md) r (tail r) nb" by blast
    with r(2,3) t(2) have "nb = head r"
      by (auto simp: inducesForbidden_def isDepot_def split: if_splits)
    then show "nb \<in> {head r}" by simp
  qed
  have P4: "head r \<notin> set (neighbors pd' ! i ! j)"
    if r: "r \<in> set arcconss" "arcActive r" "arctype r = ENFORCE" "head r < nC md - 1"
      and i: "i < nC md" "i \<noteq> tail r" and j: "j < nDays md" for r i j
  proof
    assume "head r \<in> set (neighbors pd' ! i ! j)"
    from member[OF i(1) j this] have nf: "\<not> isForbidden pd' ! i ! head r" by simp
    from r(4) have h: "head r < nC md" "\<not> isDepot (nC md) (head r)"
      by (simp_all add: isDepot_def)
    from nf forb[OF i(1) h(1)] r(1) have ni: "\<not> inducesForbidden (nC md) r i (head r)" by blast
    show False
    proof (cases "isDepot (nC md) (tail r)")
      case True
      with i have "\<not> isDepot (nC md) i" by (auto simp: isDepot_def)
      with ni r(2,3) h(2) True show False
        by (simp add: inducesForbidden_def)
    next
      case False
      with ni r(2,3) h(2) i(2) show False
        by (simp add: inducesForbidden_def)
    qed
  qed
  from P1 P2 P3 P4 show ?thesis by blast
qed

theorem set_current_graph_neighbors_witness:
  "\<exists>pd'. set_current_graph
        \<lparr>nC = 3, nDays = 2, timeWindows = [[0, 1], [1], [0, 1]],
         modelNeighbors = [[[1, 2], [1, 2]], [[0, 2], [0, 2]], [[0, 1], [0, 1]]]\<rparr>
        [\<lparr>arcActive = True, tail = 0, head = 1, arctype = ENFORCE\<rparr>] []
        (projr (SCIPpricerVrpActivate
           \<lparr>nC = 3, nDays = 2, timeWindows = [[0, 1], [1], [0, 1]],
            modelNeighbors = [[[1, 2], [1, 2]], [[0, 2], [0, 2]], [[0, 1], [0, 1]]]\<rparr>))
      = Inr pd'
    \<and> neighbors pd' = [[[], [1]], [[], [0, 2]], [[0], [0]]]
    \<and> set (neighbors pd' ! 0 ! 1) \<subseteq> {1}
    \<and> 1 \<notin> set (neighbors pd' ! 2 ! 1)"
proof -
  let ?md = "\<lparr>nC = 3, nDays = 2, timeWindows = [[0, 1], [1], [0, 1]],
         modelNeighbors = [[[1, 2], [1, 2]], [[0, 2], [0, 2]], [[0, 1], [0, 1]]]\<rparr>"
  let ?r = "\<lparr>arcActive = True, tail = 0, head = 1, arctype = ENFORCE\<rparr>"
  let ?pd = "projr (SCIPpricerVrpActivate ?md)"
  have ev: "(case set_current_graph ?md [?r] [] ?pd of
               Inl e \<Rightarrow> False
             | Inr pd' \<Rightarrow> neighbors pd' = [[[], [1]], [[], [0, 2]], [[0], [0]]])"
    by code_simp
  then obtain pd' where run: "set_current_graph ?md [?r] [] ?pd = Inr pd'"
    by (auto split: sum.splits)
  from ev run have nb: "neighbors pd' = [[[], [1]], [[], [0, 2]], [[0], [0]]]" by simp
  have sized: "pricerdata_sized ?md ?pd" by code_simp
  have wf: "model_wf ?md" by code_simp
  note T = set_current_graph_neighbors[OF run sized wf]
  from T have "\<forall>r\<in>set [?r]. arcActive r \<and> arctype r = ENFORCE \<and> tail r < nC ?md - 1
            \<longrightarrow> (\<forall>j<nDays ?md. set (neighbors pd' ! tail r ! j) \<subseteq> {head r})"
    by blast
  then have "\<forall>j<2. set (neighbors pd' ! 0 ! j) \<subseteq> {1}" by simp
  then have A: "set (neighbors pd' ! 0 ! 1) \<subseteq> {1}" by simp
  from T have "\<forall>r\<in>set [?r]. arcActive r \<and> arctype r = ENFORCE \<and> head r < nC ?md - 1
            \<longrightarrow> (\<forall>i<nC ?md. i \<noteq> tail r
                   \<longrightarrow> (\<forall>j<nDays ?md. head r \<notin> set (neighbors pd' ! i ! j)))"
    by blast
  then have "\<forall>i<3. i \<noteq> 0 \<longrightarrow> (\<forall>j<2. 1 \<notin> set (neighbors pd' ! i ! j))" by simp
  moreover have "(2::nat) < 3" "(2::nat) \<noteq> 0" "(1::nat) < 2" by simp_all
  ultimately have B: "1 \<notin> set (neighbors pd' ! 2 ! 1)" by blast
  from run nb A B show ?thesis by blast
qed

theorem set_current_graph_not_single_successor:
  "(case setArcMatrix
           \<lparr>nC = 3, nDays = 2, timeWindows = [[0, 1], [1], [0, 1]],
            modelNeighbors = [[[1, 2], [1, 2]], [[0, 2], [0, 2]], [[0, 1], [0, 1]]]\<rparr>
           [\<lparr>arcActive = True, tail = 0, head = 1, arctype = ENFORCE\<rparr>]
           (projr (SCIPpricerVrpActivate
              \<lparr>nC = 3, nDays = 2, timeWindows = [[0, 1], [1], [0, 1]],
               modelNeighbors = [[[1, 2], [1, 2]], [[0, 2], [0, 2]], [[0, 1], [0, 1]]]\<rparr>)) of
      Inl e \<Rightarrow> False
    | Inr st \<Rightarrow>
        (case set_current_graph
                \<lparr>nC = 3, nDays = 2, timeWindows = [[0, 1], [1], [0, 1]],
                 modelNeighbors = [[[1, 2], [1, 2]], [[0, 2], [0, 2]], [[0, 1], [0, 1]]]\<rparr>
                [\<lparr>arcActive = True, tail = 0, head = 1, arctype = ENFORCE\<rparr>] []
                (projr (SCIPpricerVrpActivate
                   \<lparr>nC = 3, nDays = 2, timeWindows = [[0, 1], [1], [0, 1]],
                    modelNeighbors = [[[1, 2], [1, 2]], [[0, 2], [0, 2]], [[0, 1], [0, 1]]]\<rparr>)) of
           Inl e \<Rightarrow> False
         | Inr pd' \<Rightarrow>
             fst (snd st) ! 0 = 1
             \<and> timetable pd' ! 0 ! 0
             \<and> neighbors pd' ! 0 ! 0 = []
             \<and> neighbors_as_specified
                  \<lparr>nC = 3, nDays = 2, timeWindows = [[0, 1], [1], [0, 1]],
                   modelNeighbors = [[[1, 2], [1, 2]], [[0, 2], [0, 2]], [[0, 1], [0, 1]]]\<rparr>
                  pd' (fst (snd st)) (snd (snd st)) 0 0 = [1]))"
  by code_simp

subsection \<open>The neighbor cache\<close>

lemma check_current_graph_log:
  "rebuilds (check_current_graph rebuild node st)
     = rebuilds st @ tl (remdups_adj [lastnodeid (pricerdata st), node])"
  "lastnodeid (pricerdata (check_current_graph rebuild node st)) = node"
  by (auto simp: check_current_graph_def)

lemma tl_remdups_adj_Cons:
  "tl (remdups_adj (l # n # ns)) = tl (remdups_adj [l, n]) @ tl (remdups_adj (n # ns))"
  by (cases ns) auto

lemma pricing_calls_log:
  "rebuilds (pricing_calls rebuild calls st)
     = rebuilds st @ tl (remdups_adj (lastnodeid (pricerdata st) # reached_nodes calls))
   \<and> lastnodeid (pricerdata (pricing_calls rebuild calls st))
     = last (lastnodeid (pricerdata st) # reached_nodes calls)"
proof (induction rebuild calls st rule: pricing_calls.induct)
  case (1 rebuild st)
  then show ?case by simp
next
  case (2 rebuild early node calls st)
  show ?case
  proof (cases early)
    case True
    with 2 show ?thesis by (simp add: pricerRedcostVrp_def)
  next
    case False
    with 2 show ?thesis
      by (simp add: pricerRedcostVrp_def check_current_graph_log
            tl_remdups_adj_Cons[of "lastnodeid (pricerdata st)" node "reached_nodes calls"]
          del: remdups_adj.simps)
  qed
next
  case (3 rebuild early node calls st)
  show ?case
  proof (cases early)
    case True
    with 3 show ?thesis by (simp add: pricerFarkasVrp_def)
  next
    case False
    with 3 show ?thesis
      by (simp add: pricerFarkasVrp_def check_current_graph_log
            tl_remdups_adj_Cons[of "lastnodeid (pricerdata st)" node "reached_nodes calls"]
          del: remdups_adj.simps)
  qed
qed

lemma remdups_adj_hd_tl: "remdups_adj (l # ns) = l # tl (remdups_adj (l # ns))"
  by (metis hd_remdups_adj list.collapse list.sel(1) remdups_adj_Nil_iff list.distinct(1))

lemma count_list_distinct:
  "distinct xs \<Longrightarrow> count_list xs x = (if x \<in> set xs then 1 else 0)"
  by (induction xs) auto

lemma contiguous_runs_count:
  assumes "distinct (remdups_adj (l # ns))" and "n \<in> set ns"
  shows "count_list (tl (remdups_adj (l # ns))) n = (if n = l then 0 else 1)"
proof -
  let ?t = "tl (remdups_adj (l # ns))"
  have eq: "remdups_adj (l # ns) = l # ?t" by (rule remdups_adj_hd_tl)
  from assms(1) eq have d: "distinct ?t" "l \<notin> set ?t"
    by (metis distinct.simps(2))+
  have "n \<in> set (remdups_adj (l # ns))" using assms(2) by simp
  then have "n \<in> set (l # ?t)" by (subst eq[symmetric])
  then have "n \<noteq> l \<Longrightarrow> n \<in> set ?t" by (meson set_ConsD)
  with d show ?thesis by (auto simp: count_list_distinct)
qed

text \<open>
  Claim C7 (as amended). A pricing call that returns before the node test never
  rebuilds the restricted graph. A call that reaches the test rebuilds it exactly when
  the number of the current node differs from the cached \<open>lastnodeid\<close>, and then caches
  that number; so over any sequence of calls the rebuilds are the changes of node number
  along the calls that reach the test, starting from the initial \<open>lastnodeid\<close>, and a
  further call at the same node never rebuilds. Hence, when every node is priced in one
  run of consecutive calls, each node reached whose number differs from the initial
  \<open>lastnodeid\<close> is rebuilt exactly once, and a node numbered like the initial
  \<open>lastnodeid\<close> is not rebuilt at all. The pricer data of an activation has
  \<open>lastnodeid = 1\<close>, the number of the root.
\<close>

theorem neighbor_cache_rebuilds:
  "rebuilds (pricerRedcostVrp rebuild True node st) = rebuilds st
   \<and> rebuilds (pricerFarkasVrp rebuild True node st) = rebuilds st
   \<and> rebuilds (pricerRedcostVrp rebuild False node st)
       = (if lastnodeid (pricerdata st) \<noteq> node then rebuilds st @ [node] else rebuilds st)
   \<and> rebuilds (pricerFarkasVrp rebuild False node st)
       = (if lastnodeid (pricerdata st) \<noteq> node then rebuilds st @ [node] else rebuilds st)
   \<and> lastnodeid (pricerdata (pricerRedcostVrp rebuild False node st)) = node
   \<and> lastnodeid (pricerdata (pricerFarkasVrp rebuild False node st)) = node
   \<and> lastnodeid (pricerdata (pricerRedcostVrp rebuild True node st)) = lastnodeid (pricerdata st)
   \<and> lastnodeid (pricerdata (pricerFarkasVrp rebuild True node st)) = lastnodeid (pricerdata st)
   \<and> rebuilds (pricing_calls rebuild calls st)
       = rebuilds st @ tl (remdups_adj (lastnodeid (pricerdata st) # reached_nodes calls))
   \<and> (rebuilds st = [] \<and> distinct (remdups_adj (lastnodeid (pricerdata st) # reached_nodes calls))
        \<longrightarrow> (\<forall>n\<in>set (reached_nodes calls).
               count_list (rebuilds (pricing_calls rebuild calls st)) n
                 = (if n = lastnodeid (pricerdata st) then 0 else 1)))
   \<and> (\<forall>pd. SCIPpricerVrpActivate md = Inr pd \<longrightarrow> lastnodeid pd = 1)"
proof (intro conjI)
  show "rebuilds (pricerRedcostVrp rebuild True node st) = rebuilds st"
    "rebuilds (pricerFarkasVrp rebuild True node st) = rebuilds st"
    "lastnodeid (pricerdata (pricerRedcostVrp rebuild True node st)) = lastnodeid (pricerdata st)"
    "lastnodeid (pricerdata (pricerFarkasVrp rebuild True node st)) = lastnodeid (pricerdata st)"
    by (simp_all add: pricerRedcostVrp_def pricerFarkasVrp_def)
  show "rebuilds (pricerRedcostVrp rebuild False node st)
       = (if lastnodeid (pricerdata st) \<noteq> node then rebuilds st @ [node] else rebuilds st)"
    "rebuilds (pricerFarkasVrp rebuild False node st)
       = (if lastnodeid (pricerdata st) \<noteq> node then rebuilds st @ [node] else rebuilds st)"
    "lastnodeid (pricerdata (pricerRedcostVrp rebuild False node st)) = node"
    "lastnodeid (pricerdata (pricerFarkasVrp rebuild False node st)) = node"
    by (simp_all add: pricerRedcostVrp_def pricerFarkasVrp_def check_current_graph_def)
  show A: "rebuilds (pricing_calls rebuild calls st)
     = rebuilds st @ tl (remdups_adj (lastnodeid (pricerdata st) # reached_nodes calls))"
    using pricing_calls_log by blast
  show "rebuilds st = [] \<and> distinct (remdups_adj (lastnodeid (pricerdata st) # reached_nodes calls))
        \<longrightarrow> (\<forall>n\<in>set (reached_nodes calls).
               count_list (rebuilds (pricing_calls rebuild calls st)) n
                 = (if n = lastnodeid (pricerdata st) then 0 else 1))"
  proof (intro impI ballI)
    fix n
    assume h: "rebuilds st = [] \<and> distinct (remdups_adj (lastnodeid (pricerdata st) # reached_nodes calls))"
      and n: "n \<in> set (reached_nodes calls)"
    from h A have "rebuilds (pricing_calls rebuild calls st)
        = tl (remdups_adj (lastnodeid (pricerdata st) # reached_nodes calls))" by simp
    with contiguous_runs_count[OF conjunct2[OF h] n]
    show "count_list (rebuilds (pricing_calls rebuild calls st)) n
                 = (if n = lastnodeid (pricerdata st) then 0 else 1)" by simp
  qed
  show "\<forall>pd. SCIPpricerVrpActivate md = Inr pd \<longrightarrow> lastnodeid pd = 1"
    by (auto simp: SCIPpricerVrpActivate_def split: if_splits sum.splits prod.splits)
qed

theorem neighbor_cache_rebuilds_witness:
  "rebuilds (pricing_calls
       (rebuild_unbranched \<lparr>nC = 2, nDays = 1, timeWindows = [[0], [0]],
                             modelNeighbors = [[[1]], [[0]]]\<rparr>)
       [REDCOST False 1, FARKAS False 1, REDCOST False 2, REDCOST False 2, FARKAS True 3,
        REDCOST False 3]
       \<lparr>pricerdata = projr (SCIPpricerVrpActivate
                        \<lparr>nC = 2, nDays = 1, timeWindows = [[0], [0]],
                         modelNeighbors = [[[1]], [[0]]]\<rparr>),
        rebuilds = []\<rparr>) = [2, 3]
   \<and> count_list (rebuilds (pricing_calls
       (rebuild_unbranched \<lparr>nC = 2, nDays = 1, timeWindows = [[0], [0]],
                             modelNeighbors = [[[1]], [[0]]]\<rparr>)
       [REDCOST False 1, FARKAS False 1, REDCOST False 2, REDCOST False 2, FARKAS True 3,
        REDCOST False 3]
       \<lparr>pricerdata = projr (SCIPpricerVrpActivate
                        \<lparr>nC = 2, nDays = 1, timeWindows = [[0], [0]],
                         modelNeighbors = [[[1]], [[0]]]\<rparr>),
        rebuilds = []\<rparr>)) 2 = 1
   \<and> rebuilds (pricing_calls
       (rebuild_unbranched \<lparr>nC = 2, nDays = 1, timeWindows = [[0], [0]],
                             modelNeighbors = [[[1]], [[0]]]\<rparr>)
       [REDCOST True 2, FARKAS True 2, REDCOST True 2]
       \<lparr>pricerdata = projr (SCIPpricerVrpActivate
                        \<lparr>nC = 2, nDays = 1, timeWindows = [[0], [0]],
                         modelNeighbors = [[[1]], [[0]]]\<rparr>),
        rebuilds = []\<rparr>) = []
   \<and> (\<exists>pd. SCIPpricerVrpActivate
               \<lparr>nC = 2, nDays = 1, timeWindows = [[0], [0]],
                modelNeighbors = [[[1]], [[0]]]\<rparr> = Inr pd
          \<and> lastnodeid pd = 1)"
proof -
  let ?md = "\<lparr>nC = 2, nDays = 1, timeWindows = [[0], [0]], modelNeighbors = [[[1]], [[0]]]\<rparr>"
  let ?cs = "[REDCOST False 1, FARKAS False 1, REDCOST False 2, REDCOST False 2, FARKAS True 3,
        REDCOST False 3]"
  let ?es = "[REDCOST True 2, FARKAS True 2, REDCOST True 2]"
  let ?st = "\<lparr>pricerdata = projr (SCIPpricerVrpActivate ?md), rebuilds = []\<rparr>"
  have "isOK (SCIPpricerVrpActivate ?md)" by code_simp
  then obtain pd0 where act: "SCIPpricerVrpActivate ?md = Inr pd0"
    by (auto dest!: isOK_obtain)
  note T = neighbor_cache_rebuilds[of "rebuild_unbranched ?md" 0 ?st ?cs ?md]
  note E = neighbor_cache_rebuilds[of "rebuild_unbranched ?md" 0 ?st ?es ?md]
  from T act have l0: "lastnodeid pd0 = 1" by blast
  have l: "lastnodeid (pricerdata ?st) = 1" unfolding act using l0 by simp
  have r: "reached_nodes ?cs = [1, 1, 2, 2, 3]" by simp
  have re: "reached_nodes ?es = []" by simp
  from T have A: "rebuilds (pricing_calls (rebuild_unbranched ?md) ?cs ?st) = [2, 3]"
    unfolding l r by simp
  from T have "\<forall>n\<in>set (reached_nodes ?cs).
      count_list (rebuilds (pricing_calls (rebuild_unbranched ?md) ?cs ?st)) n
        = (if n = lastnodeid (pricerdata ?st) then 0 else 1)"
    unfolding l r by simp
  then have B: "count_list (rebuilds (pricing_calls (rebuild_unbranched ?md) ?cs ?st)) 2 = 1"
    unfolding l r by simp
  from E have C: "rebuilds (pricing_calls (rebuild_unbranched ?md) ?es ?st) = []"
    unfolding l re by simp
  from act l0 have D: "\<exists>pd. SCIPpricerVrpActivate ?md = Inr pd \<and> lastnodeid pd = 1" by blast
  from A B C D show ?thesis by blast
qed

theorem root_node_not_rebuilt:
  "rebuilds (pricing_calls
       (rebuild_unbranched \<lparr>nC = 2, nDays = 1, timeWindows = [[0], [0]],
                             modelNeighbors = [[[1]], [[0]]]\<rparr>)
       [REDCOST False 1, REDCOST False 1, FARKAS False 1]
       \<lparr>pricerdata = projr (SCIPpricerVrpActivate
                        \<lparr>nC = 2, nDays = 1, timeWindows = [[0], [0]],
                         modelNeighbors = [[[1]], [[0]]]\<rparr>),
        rebuilds = []\<rparr>) = []"
  by code_simp

subsection \<open>The branching rule\<close>






















subsection \<open>The propagation callback\<close>

lemma cutsOff_iff:
  "cutsOff r vars \<longleftrightarrow> (\<exists>w<length vars. npropagatedvars r \<le> w \<and> contradicts r (vars ! w))"
  by (auto simp: cutsOff_def list_ex_iff)

lemma processed_iff:
  "processed conss vars c k \<longleftrightarrow>
     (c \<le> k \<and> k < length conss \<and> \<not> propagated (conss ! k)
      \<and> (\<forall>k'. c \<le> k' \<and> k' < k \<and> \<not> propagated (conss ! k') \<longrightarrow> \<not> cutsOff (conss ! k') vars))"
  by (auto simp: processed_def list_all_iff)


lemma consdataFixVariables_spec:
  assumes run: "consdataFixVariables r vars (length vars) result = (vars1, result1)"
  shows "length vars1 = length vars"
    and "\<forall>w<length vars. vars1 ! w = (if fixesColumn r vars w then (vars ! w)\<lparr>ubLocal := 0\<rparr> else vars ! w)"
    and "result1 = (if cutsOff r vars then SCIP_CUTOFF
                    else if \<exists>w. fixesColumn r vars w then SCIP_REDUCEDDOM else result)"
proof -
  obtain nf co where loop:
    "consdataFixVariables_loop r vars (length vars) (npropagatedvars r) 0 False = (vars1, nf, co)"
    and res: "result1 = (if co then SCIP_CUTOFF else if nf > 0 then SCIP_REDUCEDDOM else result)"
    using run by (auto simp: consdataFixVariables_def split: prod.splits)
  note sp = fix_loop_spec[OF le_refl loop]
  from sp show "length vars1 = length vars" by simp
  from sp show "\<forall>w<length vars. vars1 ! w
      = (if fixesColumn r vars w then (vars ! w)\<lparr>ubLocal := 0\<rparr> else vars ! w)"
    by (simp add: fixesColumn_def)
  from sp have co: "co \<longleftrightarrow> cutsOff r vars" by (auto simp: cutsOff_iff)
  from sp have nf: "0 < nf \<longleftrightarrow> (\<exists>w. fixesColumn r vars w)" by (auto simp: fixesColumn_def)
  show "result1 = (if cutsOff r vars then SCIP_CUTOFF
                    else if \<exists>w. fixesColumn r vars w then SCIP_REDUCEDDOM else result)"
    unfolding res co nf ..
qed

lemma prop_loop_step:
  assumes run: "consPropVehicleAss_loop vars conss c result = Inr (vars', conss', result')"
    and c: "c < length conss"
  obtains (isdone) "propagated (conss ! c)"
      "consPropVehicleAss_loop vars conss (Suc c) result = Inr (vars', conss', result')"
  | (iscut) "\<not> propagated (conss ! c)"
      "consdataFixVariables (conss ! c) vars (length vars) result = (vars', SCIP_CUTOFF)"
      "conss' = conss[c := (conss ! c)\<lparr>npropagations := npropagations (conss ! c) + 1\<rparr>]"
      "result' = SCIP_CUTOFF"
  | (isprop) vars1 result1 where "\<not> propagated (conss ! c)"
      "consdataFixVariables (conss ! c) vars (length vars) result = (vars1, result1)"
      "result1 \<noteq> SCIP_CUTOFF"
      "consPropVehicleAss_loop vars1
         (conss[c := (conss ! c)\<lparr>npropagations := npropagations (conss ! c) + 1,
                                propagated := True, npropagatedvars := length vars\<rparr>])
         (Suc c) result1 = Inr (vars', conss', result')"
proof (cases "propagated (conss ! c)")
  case True
  with run c have "consPropVehicleAss_loop vars conss (Suc c) result = Inr (vars', conss', result')"
    by (subst (asm) consPropVehicleAss_loop.simps) (simp split: if_splits)
  with True show ?thesis by (rule isdone)
next
  case False
  obtain vars1 result1 where fx:
    "consdataFixVariables (conss ! c) vars (length vars) result = (vars1, result1)"
    by (cases "consdataFixVariables (conss ! c) vars (length vars) result")
  show ?thesis
  proof (cases "result1 = SCIP_CUTOFF")
    case True
    with run c False fx have "vars' = vars1"
      "conss' = conss[c := (conss ! c)\<lparr>npropagations := npropagations (conss ! c) + 1\<rparr>]"
      "result' = SCIP_CUTOFF"
      by (subst (asm) consPropVehicleAss_loop.simps, simp split: if_splits)+
    with False fx True show ?thesis by (intro iscut) simp_all
  next
    case ncut: False
    with run c False fx have "consPropVehicleAss_loop vars1
         (conss[c := (conss ! c)\<lparr>npropagations := npropagations (conss ! c) + 1,
                                propagated := True, npropagatedvars := length vars\<rparr>])
         (Suc c) result1 = Inr (vars', conss', result')"
      by (subst (asm) consPropVehicleAss_loop.simps) (simp split: if_splits)
    with False fx ncut show ?thesis by (rule isprop)
  qed
qed

text \<open>Fixing columns to zero for one record does not change what another record sees of
  a contradiction, and removes the fixed columns from what it can still fix.\<close>

lemma contradicts_after_fix:
  assumes "vars1 ! w = (if fixesColumn rc vars w then (vars ! w)\<lparr>ubLocal := 0\<rparr> else vars ! w)"
  shows "contradicts r (vars1 ! w) = contradicts r (vars ! w)"
proof (cases "fixesColumn rc vars w")
  case True
  then have "\<not> lbLocal (vars ! w) > 0.5" by (simp add: fixesColumn_def fixable_def)
  with True assms show ?thesis
    by (simp add: contradicts_def violatesRecord_def customerAndDayInVar_def)
next
  case False
  with assms show ?thesis by simp
qed

lemma fixable_after_fix:
  assumes "vars1 ! w = (if fixesColumn rc vars w then (vars ! w)\<lparr>ubLocal := 0\<rparr> else vars ! w)"
  shows "fixable r (vars1 ! w) = (fixable r (vars ! w) \<and> \<not> fixesColumn rc vars w)"
proof (cases "fixesColumn rc vars w")
  case True
  with assms show ?thesis by (simp add: fixable_def)
next
  case False
  with assms show ?thesis by simp
qed

lemma scanned_after_fix:
  assumes len: "length vars1 = length vars"
    and v1: "\<forall>w<length vars. vars1 ! w
        = (if fixesColumn rc vars w then (vars ! w)\<lparr>ubLocal := 0\<rparr> else vars ! w)"
    and w: "w \<le> length vars"
  shows "scanned r vars1 v0 w = scanned r vars v0 w"
proof -
  have "contradicts r (vars1 ! u) = contradicts r (vars ! u)" if "u < w" for u
  proof -
    from that w have "u < length vars" by simp
    with v1 have "vars1 ! u
        = (if fixesColumn rc vars u then (vars ! u)\<lparr>ubLocal := 0\<rparr> else vars ! u)" by blast
    then show ?thesis by (rule contradicts_after_fix)
  qed
  then show ?thesis by (auto simp: scanned_def list_all_iff)
qed

lemma cutsOff_after_fix:
  assumes len: "length vars1 = length vars"
    and v1: "\<forall>w<length vars. vars1 ! w
        = (if fixesColumn rc vars w then (vars ! w)\<lparr>ubLocal := 0\<rparr> else vars ! w)"
  shows "cutsOff r vars1 = cutsOff r vars"
proof -
  have "contradicts r (vars1 ! w) = contradicts r (vars ! w)" if "w < length vars" for w
    using v1 that contradicts_after_fix[of vars1 w rc vars r] by blast
  then show ?thesis unfolding cutsOff_iff len by blast
qed

lemma fixesColumn_after_fix:
  assumes len: "length vars1 = length vars"
    and v1: "\<forall>w<length vars. vars1 ! w
        = (if fixesColumn rc vars w then (vars ! w)\<lparr>ubLocal := 0\<rparr> else vars ! w)"
  shows "fixesColumn r vars1 w = (fixesColumn r vars w \<and> \<not> fixesColumn rc vars w)"
proof (cases "w < length vars")
  case False
  then show ?thesis by (simp add: fixesColumn_def len)
next
  case True
  with v1 have e: "vars1 ! w
      = (if fixesColumn rc vars w then (vars ! w)\<lparr>ubLocal := 0\<rparr> else vars ! w)" by blast
  from True have "w \<le> length vars" by simp
  note s = scanned_after_fix[OF len v1 this, of r "npropagatedvars r"]
  show ?thesis unfolding fixesColumn_def len s fixable_after_fix[OF e]
    by (auto simp: fixesColumn_def)
qed

lemma processed_self:
  "processed conss vars c c \<longleftrightarrow> c < length conss \<and> \<not> propagated (conss ! c)"
  by (auto simp: processed_iff)

lemma processed_before: "k < c \<Longrightarrow> \<not> processed conss vars c k"
  by (simp add: processed_iff)

lemma processed_Suc:
  assumes "c < k"
  shows "processed conss vars c k \<longleftrightarrow>
     (propagated (conss ! c) \<or> \<not> cutsOff (conss ! c) vars) \<and> processed conss vars (Suc c) k"
proof -
  have split: "\<And>k'. c \<le> k' \<longleftrightarrow> k' = c \<or> Suc c \<le> k'" by auto
  show ?thesis using assms unfolding processed_iff split by auto
qed

lemma processed_update:
  assumes len: "length vars1 = length vars"
    and v1: "\<forall>w<length vars. vars1 ! w
        = (if fixesColumn rc vars w then (vars ! w)\<lparr>ubLocal := 0\<rparr> else vars ! w)"
  shows "processed (conss[c := x]) vars1 (Suc c) k = processed conss vars (Suc c) k"
  unfolding processed_iff
  by (auto simp: cutsOff_after_fix[OF len v1])

lemma processed_propagated:
  assumes "propagated (conss ! c)"
  shows "processed conss vars c k = processed conss vars (Suc c) k"
proof (cases "c < k")
  case True
  then show ?thesis using assms by (simp add: processed_Suc)
next
  case False
  then have "k < Suc c" by simp
  then have "\<not> processed conss vars (Suc c) k" by (rule processed_before)
  moreover have "\<not> processed conss vars c k"
  proof (cases "k = c")
    case True
    then show ?thesis using assms by (simp add: processed_iff)
  next
    case False
    with \<open>\<not> c < k\<close> have "k < c" by simp
    then show ?thesis by (rule processed_before)
  qed
  ultimately show ?thesis by simp
qed

lemma processed_cut:
  assumes "c < length conss" "\<not> propagated (conss ! c)" "cutsOff (conss ! c) vars"
  shows "processed conss vars c k \<longleftrightarrow> k = c"
proof (cases "c < k")
  case True
  then show ?thesis using assms by (simp add: processed_Suc)
next
  case False
  show ?thesis
  proof (cases "k = c")
    case True
    then show ?thesis using assms by (simp add: processed_self)
  next
    case False
    with \<open>\<not> c < k\<close> have "k < c" by simp
    then show ?thesis using False by (simp add: processed_before)
  qed
qed

lemma processed_step:
  assumes c: "c < length conss" "\<not> propagated (conss ! c)" "\<not> cutsOff (conss ! c) vars"
    and len: "length vars1 = length vars"
    and v1: "\<forall>w<length vars. vars1 ! w
        = (if fixesColumn (conss ! c) vars w then (vars ! w)\<lparr>ubLocal := 0\<rparr> else vars ! w)"
  shows "processed conss vars c k \<longleftrightarrow> k = c \<or> processed (conss[c := x]) vars1 (Suc c) k"
proof (cases "c < k")
  case True
  then show ?thesis using c by (simp add: processed_Suc processed_update[OF len v1])
next
  case False
  then have "k < Suc c" by simp
  then have n: "\<not> processed (conss[c := x]) vars1 (Suc c) k" by (rule processed_before)
  show ?thesis
  proof (cases "k = c")
    case True
    then show ?thesis using c by (simp add: processed_self)
  next
    case False
    with \<open>\<not> c < k\<close> have "k < c" by simp
    then show ?thesis using False n by (simp add: processed_before)
  qed
qed

lemma processed_gt: "processed conss vars (Suc c) k \<Longrightarrow> c < k \<and> k < length conss"
  by (simp add: processed_iff)

lemma prop_loop_spec:
  "consPropVehicleAss_loop vars conss c result = Inr (vars', conss', result')
   \<Longrightarrow> result \<noteq> SCIP_CUTOFF
   \<Longrightarrow> length vars' = length vars \<and> length conss' = length conss
     \<and> result' = (if \<exists>k. processed conss vars c k \<and> cutsOff (conss ! k) vars then SCIP_CUTOFF
                   else if \<exists>k w. processed conss vars c k \<and> fixesColumn (conss ! k) vars w
                     then SCIP_REDUCEDDOM
                   else result)
     \<and> (\<forall>k<length conss.
           conss' ! k =
             (if processed conss vars c k then
                (if cutsOff (conss ! k) vars
                 then (conss ! k)\<lparr>npropagations := npropagations (conss ! k) + 1\<rparr>
                 else (conss ! k)\<lparr>npropagations := npropagations (conss ! k) + 1,
                                   propagated := True, npropagatedvars := length vars\<rparr>)
              else conss ! k))
     \<and> (\<forall>w<length vars.
           vars' ! w =
             (if \<exists>k. processed conss vars c k \<and> fixesColumn (conss ! k) vars w
              then (vars ! w)\<lparr>ubLocal := 0\<rparr> else vars ! w))"
proof (induction "length conss - c" arbitrary: c vars conss result)
  case 0
  then have nc: "\<not> c < length conss" by simp
  with 0(2) have res: "vars' = vars" "conss' = conss" "result' = result"
    by (subst (asm) consPropVehicleAss_loop.simps, simp)+
  from nc have "\<And>k. \<not> processed conss vars c k" by (auto simp: processed_iff)
  with res show ?case by simp
next
  case (Suc n)
  then have c: "c < length conss" and n: "n = length conss - Suc c" by simp_all
  from Suc.prems(1) c show ?case
  proof (cases rule: prop_loop_step)
    case isdone
    note IH = Suc.hyps(1)[OF n isdone(2) Suc.prems(2)]
    show ?thesis using IH unfolding processed_propagated[OF isdone(1)] .
  next
    case iscut
    note sp = consdataFixVariables_spec[OF iscut(2)]
    from sp(3) Suc.prems(2) have cut: "cutsOff (conss ! c) vars"
      by (auto split: if_splits)
    note pc = processed_cut[OF c iscut(1) cut]
    have A: "length vars' = length vars \<and> length conss' = length conss"
      using sp(1) iscut(3) by simp
    have B: "result' = (if \<exists>k. processed conss vars c k \<and> cutsOff (conss ! k) vars then SCIP_CUTOFF
                   else if \<exists>k w. processed conss vars c k \<and> fixesColumn (conss ! k) vars w
                     then SCIP_REDUCEDDOM
                   else result)"
      using iscut(4) cut by (simp add: pc)
    have C: "\<forall>k<length conss.
           conss' ! k =
             (if processed conss vars c k then
                (if cutsOff (conss ! k) vars
                 then (conss ! k)\<lparr>npropagations := npropagations (conss ! k) + 1\<rparr>
                 else (conss ! k)\<lparr>npropagations := npropagations (conss ! k) + 1,
                                   propagated := True, npropagatedvars := length vars\<rparr>)
              else conss ! k)"
      using iscut(3) cut c by (simp add: pc nth_list_update)
    have D: "\<forall>w<length vars.
           vars' ! w =
             (if \<exists>k. processed conss vars c k \<and> fixesColumn (conss ! k) vars w
              then (vars ! w)\<lparr>ubLocal := 0\<rparr> else vars ! w)"
      using sp(2) by (simp add: pc)
    from A B C D show ?thesis by blast
  next
    case (isprop vars1 result1)
    let ?Y = "(conss ! c)\<lparr>npropagations := npropagations (conss ! c) + 1,
                                propagated := True, npropagatedvars := length vars\<rparr>"
    let ?conss1 = "conss[c := ?Y]"
    note sp = consdataFixVariables_spec[OF isprop(2)]
    from sp(3) isprop(3) have ncut: "\<not> cutsOff (conss ! c) vars"
      by (auto split: if_splits)
    have n1: "n = length ?conss1 - Suc c" using n by simp
    note IH = Suc.hyps(1)[OF n1 isprop(4,3)]
    note ps = processed_step[OF c isprop(1) ncut sp(1,2), of _ ?Y]
    have k1: "?conss1 ! k = conss ! k" if "processed ?conss1 vars1 (Suc c) k" for k
      using processed_gt[OF that] by simp
    have cu: "cutsOff (?conss1 ! k) vars1 = cutsOff (conss ! k) vars"
      if "processed ?conss1 vars1 (Suc c) k" for k
      unfolding k1[OF that] by (rule cutsOff_after_fix[OF sp(1,2)])
    have fx: "fixesColumn (?conss1 ! k) vars1 w
        = (fixesColumn (conss ! k) vars w \<and> \<not> fixesColumn (conss ! c) vars w)"
      if "processed ?conss1 vars1 (Suc c) k" for k w
      unfolding k1[OF that] by (rule fixesColumn_after_fix[OF sp(1,2)])
    have notc: "\<not> processed ?conss1 vars1 (Suc c) c"
      by (simp add: processed_before)
    have r1: "result1 = (if \<exists>w. fixesColumn (conss ! c) vars w then SCIP_REDUCEDDOM else result)"
      using sp(3) ncut by simp
    have A: "length vars' = length vars \<and> length conss' = length conss"
      using IH sp(1) by simp
    define P where "P k = processed conss vars c k" for k
    define P1 where "P1 k = processed ?conss1 vars1 (Suc c) k" for k
    define C0 where "C0 k = cutsOff (conss ! k) vars" for k
    define C1 where "C1 k = cutsOff (?conss1 ! k) vars1" for k
    define F0 where "F0 k w = fixesColumn (conss ! k) vars w" for k w
    define F1 where "F1 k w = fixesColumn (?conss1 ! k) vars1 w" for k w
    have ps': "\<And>k. P k \<longleftrightarrow> k = c \<or> P1 k" unfolding P_def P1_def by (rule ps)
    have cu': "\<And>k. P1 k \<Longrightarrow> C1 k = C0 k" unfolding P1_def C1_def C0_def by (rule cu)
    have fx': "\<And>k w. P1 k \<Longrightarrow> F1 k w = (F0 k w \<and> \<not> F0 c w)"
      unfolding P1_def F1_def F0_def by (rule fx)
    have ncut': "\<not> C0 c" unfolding C0_def by (rule ncut)
    have "(\<exists>k. P k \<and> C0 k) \<longleftrightarrow> (\<exists>k. P1 k \<and> C1 k)"
      using ps' ncut' cu' by metis
    then have E1: "(\<exists>k. processed conss vars c k \<and> cutsOff (conss ! k) vars)
        \<longleftrightarrow> (\<exists>k. processed ?conss1 vars1 (Suc c) k \<and> cutsOff (?conss1 ! k) vars1)"
      unfolding P_def P1_def C0_def C1_def .
    have "(\<exists>k. P k \<and> F0 k w) \<longleftrightarrow> F0 c w \<or> (\<exists>k. P1 k \<and> F1 k w)" for w
      using ps' fx' by metis
    then have E2: "(\<exists>k. processed conss vars c k \<and> fixesColumn (conss ! k) vars w)
        \<longleftrightarrow> fixesColumn (conss ! c) vars w
            \<or> (\<exists>k. processed ?conss1 vars1 (Suc c) k \<and> fixesColumn (?conss1 ! k) vars1 w)" for w
      unfolding P_def P1_def F0_def F1_def .
    have E3: "\<not> (\<exists>k. processed ?conss1 vars1 (Suc c) k \<and> fixesColumn (?conss1 ! k) vars1 w)"
      if "fixesColumn (conss ! c) vars w" for w
    proof -
      from that have "F0 c w" by (simp add: F0_def)
      with fx' have "\<not> (\<exists>k. P1 k \<and> F1 k w)" by metis
      then show ?thesis unfolding P1_def F1_def .
    qed
    have B: "result' = (if \<exists>k. processed conss vars c k \<and> cutsOff (conss ! k) vars then SCIP_CUTOFF
                   else if \<exists>k w. processed conss vars c k \<and> fixesColumn (conss ! k) vars w
                     then SCIP_REDUCEDDOM
                   else result)"
    proof -
      from IH have "result' = (if \<exists>k. processed ?conss1 vars1 (Suc c) k \<and> cutsOff (?conss1 ! k) vars1
                     then SCIP_CUTOFF
                   else if \<exists>k w. processed ?conss1 vars1 (Suc c) k \<and> fixesColumn (?conss1 ! k) vars1 w
                     then SCIP_REDUCEDDOM
                   else result1)" by blast
      moreover have "(\<exists>k w. processed conss vars c k \<and> fixesColumn (conss ! k) vars w)
          \<longleftrightarrow> (\<exists>w. fixesColumn (conss ! c) vars w)
              \<or> (\<exists>k w. processed ?conss1 vars1 (Suc c) k \<and> fixesColumn (?conss1 ! k) vars1 w)"
        using E2 by blast
      ultimately show ?thesis unfolding E1 r1 by auto
    qed
    have C: "conss' ! k =
             (if processed conss vars c k then
                (if cutsOff (conss ! k) vars
                 then (conss ! k)\<lparr>npropagations := npropagations (conss ! k) + 1\<rparr>
                 else (conss ! k)\<lparr>npropagations := npropagations (conss ! k) + 1,
                                   propagated := True, npropagatedvars := length vars\<rparr>)
              else conss ! k)" if k: "k < length conss" for k
    proof -
      from IH k have e: "conss' ! k =
             (if processed ?conss1 vars1 (Suc c) k then
                (if cutsOff (?conss1 ! k) vars1
                 then (?conss1 ! k)\<lparr>npropagations := npropagations (?conss1 ! k) + 1\<rparr>
                 else (?conss1 ! k)\<lparr>npropagations := npropagations (?conss1 ! k) + 1,
                                   propagated := True, npropagatedvars := length vars1\<rparr>)
              else ?conss1 ! k)" by simp
      show ?thesis
      proof (cases "k = c")
        case True
        with e notc c ps[of c] ncut show ?thesis by simp
      next
        case False
        show ?thesis
        proof (cases "processed ?conss1 vars1 (Suc c) k")
          case True
          with e ps[of k] cu[OF True] k1[OF True] sp(1) show ?thesis by simp
        next
          case False
          with e ps[of k] \<open>k \<noteq> c\<close> show ?thesis by simp
        qed
      qed
    qed
    have D: "vars' ! w =
             (if \<exists>k. processed conss vars c k \<and> fixesColumn (conss ! k) vars w
              then (vars ! w)\<lparr>ubLocal := 0\<rparr> else vars ! w)" if w: "w < length vars" for w
    proof -
      from IH w sp(1) have e: "vars' ! w =
             (if \<exists>k. processed ?conss1 vars1 (Suc c) k \<and> fixesColumn (?conss1 ! k) vars1 w
              then (vars1 ! w)\<lparr>ubLocal := 0\<rparr> else vars1 ! w)" by simp
      from sp(2) w have v: "vars1 ! w
          = (if fixesColumn (conss ! c) vars w then (vars ! w)\<lparr>ubLocal := 0\<rparr> else vars ! w)"
        by blast
      define q where "q \<longleftrightarrow> (\<exists>k. processed ?conss1 vars1 (Suc c) k
                                  \<and> fixesColumn (?conss1 ! k) vars1 w)"
      define q0 where "q0 \<longleftrightarrow> (\<exists>k. processed conss vars c k \<and> fixesColumn (conss ! k) vars w)"
      from e have e': "vars' ! w = (if q then (vars1 ! w)\<lparr>ubLocal := 0\<rparr> else vars1 ! w)"
        unfolding q_def .
      from E2[of w] have E2': "q0 \<longleftrightarrow> fixesColumn (conss ! c) vars w \<or> q"
        unfolding q_def q0_def .
      have "vars' ! w = (if q0 then (vars ! w)\<lparr>ubLocal := 0\<rparr> else vars ! w)"
      proof (cases "fixesColumn (conss ! c) vars w")
        case True
        from E3[OF True] have "\<not> q" unfolding q_def .
        with e' v True E2' show ?thesis by simp
      next
        case False
        with e' v E2' show ?thesis by simp
      qed
      then show ?thesis unfolding q0_def .
    qed
    from A B C D show ?thesis by blast
  qed
qed

text \<open>
  Claim C2 (as amended). The propagation callback starts from "did not find" and goes
  through the records in order. A record is processed when it is not yet propagated and
  no earlier not-yet-propagated record has reported CUTOFF (the loop breaks there). A
  processed record scans only the columns from its last-checked index to the current
  end: every column it reaches that is feasible, violates its verdict and is not forced
  to one is fixed to zero, and it reports CUTOFF when a column of its range is feasible,
  violates its verdict and is forced to one by its lower bound. The callback reports
  CUTOFF when a processed record does, otherwise REDUCED\_DOMAIN when a processed record
  fixed a column, and otherwise leaves the result at "did not find". The propagation
  count of every processed record is incremented; exactly when its propagation did not
  report CUTOFF its last-checked index becomes the current column count and it is
  marked propagated; every other record is left as it is, and so is every column that no
  processed record fixes.
\<close>

theorem consPropVehicleAss_propagation:
  assumes run: "consPropVehicleAss vars conss = Inr (vars', conss', result')"
  shows "length vars' = length vars \<and> length conss' = length conss
     \<and> result' = (if \<exists>k. processed conss vars 0 k \<and> cutsOff (conss ! k) vars then SCIP_CUTOFF
                   else if \<exists>k w. processed conss vars 0 k \<and> fixesColumn (conss ! k) vars w
                     then SCIP_REDUCEDDOM
                   else SCIP_DIDNOTFIND)
     \<and> (\<forall>k<length conss.
           conss' ! k =
             (if processed conss vars 0 k then
                (if cutsOff (conss ! k) vars
                 then (conss ! k)\<lparr>npropagations := npropagations (conss ! k) + 1\<rparr>
                 else (conss ! k)\<lparr>npropagations := npropagations (conss ! k) + 1,
                                   propagated := True, npropagatedvars := length vars\<rparr>)
              else conss ! k))
     \<and> (\<forall>w<length vars.
           vars' ! w =
             (if \<exists>k. processed conss vars 0 k \<and> fixesColumn (conss ! k) vars w
              then (vars ! w)\<lparr>ubLocal := 0\<rparr> else vars ! w))
     \<and> (\<forall>k w. fixesColumn (conss ! k) vars w \<longrightarrow> npropagatedvars (conss ! k) \<le> w)"
proof -
  from run have "consPropVehicleAss_loop vars conss 0 SCIP_DIDNOTFIND = Inr (vars', conss', result')"
    by (simp add: consPropVehicleAss_def)
  from prop_loop_spec[OF this]
  have "length vars' = length vars \<and> length conss' = length conss
     \<and> result' = (if \<exists>k. processed conss vars 0 k \<and> cutsOff (conss ! k) vars then SCIP_CUTOFF
                   else if \<exists>k w. processed conss vars 0 k \<and> fixesColumn (conss ! k) vars w
                     then SCIP_REDUCEDDOM
                   else SCIP_DIDNOTFIND)
     \<and> (\<forall>k<length conss.
           conss' ! k =
             (if processed conss vars 0 k then
                (if cutsOff (conss ! k) vars
                 then (conss ! k)\<lparr>npropagations := npropagations (conss ! k) + 1\<rparr>
                 else (conss ! k)\<lparr>npropagations := npropagations (conss ! k) + 1,
                                   propagated := True, npropagatedvars := length vars\<rparr>)
              else conss ! k))
     \<and> (\<forall>w<length vars.
           vars' ! w =
             (if \<exists>k. processed conss vars 0 k \<and> fixesColumn (conss ! k) vars w
              then (vars ! w)\<lparr>ubLocal := 0\<rparr> else vars ! w))"
    by simp
  moreover have "\<forall>k w. fixesColumn (conss ! k) vars w \<longrightarrow> npropagatedvars (conss ! k) \<le> w"
    by (simp add: fixesColumn_def scanned_def)
  ultimately show ?thesis by blast
qed

theorem consPropVehicleAss_propagation_witness:
  "consPropVehicleAss
      [\<lparr>customertour = [3], tourday = 1, lbLocal = 0, ubLocal = 1\<rparr>,
       \<lparr>customertour = [4], tourday = 1, lbLocal = 0, ubLocal = 1\<rparr>,
       \<lparr>customertour = [3, 4], tourday = 2, lbLocal = 0, ubLocal = 1\<rparr>]
      [\<lparr>customer = 3, day = 2, ctype = VA_ENFORCE, npropagatedvars = 0, npropagations = 0,
        propagated = False\<rparr>,
       \<lparr>customer = 4, day = 1, ctype = VA_PROHIBIT, npropagatedvars = 1, npropagations = 1,
        propagated = False\<rparr>]
     = Inr ([\<lparr>customertour = [3], tourday = 1, lbLocal = 0, ubLocal = 0\<rparr>,
             \<lparr>customertour = [4], tourday = 1, lbLocal = 0, ubLocal = 0\<rparr>,
             \<lparr>customertour = [3, 4], tourday = 2, lbLocal = 0, ubLocal = 1\<rparr>],
            [\<lparr>customer = 3, day = 2, ctype = VA_ENFORCE, npropagatedvars = 3,
              npropagations = 1, propagated = True\<rparr>,
             \<lparr>customer = 4, day = 1, ctype = VA_PROHIBIT, npropagatedvars = 3,
              npropagations = 2, propagated = True\<rparr>],
            SCIP_REDUCEDDOM)
   \<and> \<not> (\<exists>k. processed
               [\<lparr>customer = 3, day = 2, ctype = VA_ENFORCE, npropagatedvars = 0,
                 npropagations = 0, propagated = False\<rparr>,
                \<lparr>customer = 4, day = 1, ctype = VA_PROHIBIT, npropagatedvars = 1,
                 npropagations = 1, propagated = False\<rparr>]
               [\<lparr>customertour = [3], tourday = 1, lbLocal = 0, ubLocal = 1\<rparr>,
                \<lparr>customertour = [4], tourday = 1, lbLocal = 0, ubLocal = 1\<rparr>,
                \<lparr>customertour = [3, 4], tourday = 2, lbLocal = 0, ubLocal = 1\<rparr>] 0 k
            \<and> cutsOff
               ([\<lparr>customer = 3, day = 2, ctype = VA_ENFORCE, npropagatedvars = 0,
                  npropagations = 0, propagated = False\<rparr>,
                 \<lparr>customer = 4, day = 1, ctype = VA_PROHIBIT, npropagatedvars = 1,
                  npropagations = 1, propagated = False\<rparr>] ! k)
               [\<lparr>customertour = [3], tourday = 1, lbLocal = 0, ubLocal = 1\<rparr>,
                \<lparr>customertour = [4], tourday = 1, lbLocal = 0, ubLocal = 1\<rparr>,
                \<lparr>customertour = [3, 4], tourday = 2, lbLocal = 0, ubLocal = 1\<rparr>])"
proof -
  define vs where "vs = [\<lparr>customertour = [3], tourday = 1, lbLocal = 0, ubLocal = 1\<rparr>,
       \<lparr>customertour = [4], tourday = 1, lbLocal = 0, ubLocal = 1\<rparr>,
       \<lparr>customertour = [3, 4], tourday = 2, lbLocal = 0, ubLocal = (1::real)\<rparr>]"
  define cs where "cs = [\<lparr>customer = 3, day = 2, ctype = VA_ENFORCE, npropagatedvars = 0, npropagations = 0,
        propagated = False\<rparr>,
       \<lparr>customer = 4, day = 1, ctype = VA_PROHIBIT, npropagatedvars = 1, npropagations = 1,
        propagated = False\<rparr>]"
  define vs' where "vs' = [\<lparr>customertour = [3], tourday = 1, lbLocal = 0, ubLocal = 0\<rparr>,
             \<lparr>customertour = [4], tourday = 1, lbLocal = 0, ubLocal = 0\<rparr>,
             \<lparr>customertour = [3, 4], tourday = 2, lbLocal = 0, ubLocal = (1::real)\<rparr>]"
  define cs' where "cs' = [\<lparr>customer = 3, day = 2, ctype = VA_ENFORCE, npropagatedvars = 3,
              npropagations = 1, propagated = True\<rparr>,
             \<lparr>customer = 4, day = 1, ctype = VA_PROHIBIT, npropagatedvars = 3,
              npropagations = 2, propagated = True\<rparr>]"
  have run: "consPropVehicleAss vs cs = Inr (vs', cs', SCIP_REDUCEDDOM)"
    unfolding vs_def cs_def vs'_def cs'_def by code_simp
  note T = consPropVehicleAss_propagation[OF run]
  from T have "SCIP_REDUCEDDOM
      = (if \<exists>k. processed cs vs 0 k \<and> cutsOff (cs ! k) vs then SCIP_CUTOFF
         else if \<exists>k w. processed cs vs 0 k \<and> fixesColumn (cs ! k) vs w then SCIP_REDUCEDDOM
         else SCIP_DIDNOTFIND)"
    by blast
  then have A: "\<not> (\<exists>k. processed cs vs 0 k \<and> cutsOff (cs ! k) vs)"
    by (auto split: if_splits)
  from run A show ?thesis unfolding vs_def cs_def vs'_def cs'_def by blast
qed

theorem propagation_stops_at_cutoff:
  "consPropVehicleAss
      [\<lparr>customertour = [3], tourday = 2, lbLocal = 1, ubLocal = 1\<rparr>,
       \<lparr>customertour = [4], tourday = 1, lbLocal = 0, ubLocal = 1\<rparr>]
      [\<lparr>customer = 3, day = 2, ctype = VA_PROHIBIT, npropagatedvars = 0, npropagations = 0,
        propagated = False\<rparr>,
       \<lparr>customer = 4, day = 1, ctype = VA_PROHIBIT, npropagatedvars = 0, npropagations = 0,
        propagated = False\<rparr>]
     = Inr ([\<lparr>customertour = [3], tourday = 2, lbLocal = 1, ubLocal = 1\<rparr>,
             \<lparr>customertour = [4], tourday = 1, lbLocal = 0, ubLocal = 1\<rparr>],
            [\<lparr>customer = 3, day = 2, ctype = VA_PROHIBIT, npropagatedvars = 0,
              npropagations = 1, propagated = False\<rparr>,
             \<lparr>customer = 4, day = 1, ctype = VA_PROHIBIT, npropagatedvars = 0,
              npropagations = 0, propagated = False\<rparr>],
            SCIP_CUTOFF)
   \<and> fixable
        \<lparr>customer = 4, day = 1, ctype = VA_PROHIBIT, npropagatedvars = 0, npropagations = 0,
         propagated = False\<rparr>
        \<lparr>customertour = [4], tourday = 1, lbLocal = 0, ubLocal = 1\<rparr>
   \<and> consdataFixVariables
        \<lparr>customer = 4, day = 1, ctype = VA_PROHIBIT, npropagatedvars = 0, npropagations = 0,
         propagated = False\<rparr>
        [\<lparr>customertour = [3], tourday = 2, lbLocal = 1, ubLocal = 1\<rparr>,
         \<lparr>customertour = [4], tourday = 1, lbLocal = 0, ubLocal = 1\<rparr>] 2 SCIP_DIDNOTFIND
      = ([\<lparr>customertour = [3], tourday = 2, lbLocal = 1, ubLocal = 1\<rparr>,
          \<lparr>customertour = [4], tourday = 1, lbLocal = 0, ubLocal = 0\<rparr>], SCIP_REDUCEDDOM)"
  by (intro conjI; code_simp)

end
